theory Spec2Isabelle
  imports Main "HOL-Library.Char_ord" "HOL-Library.Word"
begin

section \<open>ViaVoice speech-dispatcher module: text preparation and audio collection\<close>

text \<open>
  A shallow embedding of \<^verbatim>\<open>src/sd_viavoice.c\<close>: the markup stripper
  (\<^verbatim>\<open>decode_xml_entities\<close>, \<^verbatim>\<open>strip_ssml\<close>), the text sanitizer
  (\<^verbatim>\<open>sanitize_for_viavoice\<close>), the audio callback (\<^verbatim>\<open>eci_callback\<close>) and the
  orchestrator (\<^verbatim>\<open>module_speak_sync\<close>, \<^verbatim>\<open>module_stop\<close>).

  Conventions.
  \<^item> A byte is a \<^typ>\<open>char\<close>; \<^verbatim>\<open>unsigned char\<close> comparisons use the order of
    \<^theory_text>\<open>Char_ord\<close> (the order of the byte values).
  \<^item> A C string is the list of its bytes before the terminating NUL; \<open>c_str\<close> reads a
    buffer as a C string.
  \<^item> \<^verbatim>\<open>malloc\<close> and \<^verbatim>\<open>realloc\<close> may fail: their outcome is a boolean argument of the
    function that calls them, and a returned NULL pointer is \<open>None\<close>.
  \<^item> A write past the end of an allocation, or through a NULL pointer, is undefined
    behaviour in C; the model makes it the value \<open>Inl\<close> of a \<open>fault\<close>.
  \<^item> The module is built for 32 bits (line 7): \<^verbatim>\<open>int\<close>, \<^verbatim>\<open>long\<close> and \<^verbatim>\<open>size_t\<close>
    have 32 bits. A C \<^verbatim>\<open>int\<close> is an \<^typ>\<open>int\<close> in the range of 32 bits, and the sums of
    the audio path wrap around into it (\<open>int32\<close>).
\<close>

subsection \<open>Bytes and C strings\<close>

datatype fault = BufferOverflow | MemoryFault

definition NUL :: char where
  "NUL = CHR 0x00"

definition c_str :: "string \<Rightarrow> string" where
  "c_str buf = takeWhile (\<lambda>c. c \<noteq> NUL) buf"

subsection \<open>The text sanitizer\<close>

text \<open>The pass-through test of lines 567--572.\<close>

definition is_safe_char :: "char \<Rightarrow> bool" where
  "is_safe_char c \<longleftrightarrow>
     (CHR ''A'' \<le> c \<and> c \<le> CHR ''Z'') \<or>
     (CHR ''a'' \<le> c \<and> c \<le> CHR ''z'') \<or>
     (CHR ''0'' \<le> c \<and> c \<le> CHR ''9'') \<or>
     c = CHR '' '' \<or> c = CHR 0x09 \<or> c = CHR 0x0A \<or>
     c = CHR ''.'' \<or> c = CHR '','' \<or> c = CHR ''!'' \<or> c = CHR ''?'' \<or>
     c = CHR ''$'' \<or> c = CHR 0x27"

text \<open>The clause-break test of lines 579--582.\<close>

definition is_clause_break :: "char \<Rightarrow> bool" where
  "is_clause_break c \<longleftrightarrow>
     c = CHR '';'' \<or> c = CHR '':'' \<or>
     c = CHR ''('' \<or> c = CHR '')'' \<or>
     c = CHR ''['' \<or> c = CHR '']'' \<or>
     c = CHR ''{'' \<or> c = CHR ''}''"

text \<open>The punctuation skipped after a clause break (lines 590--591 and 642--643).\<close>

definition is_trailing_punct :: "char \<Rightarrow> bool" where
  "is_trailing_punct c \<longleftrightarrow>
     c = CHR ''.'' \<or> c = CHR '','' \<or> c = CHR ''!'' \<or>
     c = CHR ''?'' \<or> c = CHR '';'' \<or> c = CHR '':''"

definition is_blank :: "char \<Rightarrow> bool" where
  "is_blank c \<longleftrightarrow> c = CHR '' '' \<or> c = CHR 0x09"

text \<open>
  \<^verbatim>\<open>*dst++ = c\<close> into a buffer of \<open>cap\<close> bytes: \<open>out\<close> is the bytes between
  \<^verbatim>\<open>out\<close> and \<^verbatim>\<open>dst\<close>, so the write goes to index \<open>length out\<close>.
\<close>

definition put :: "nat \<Rightarrow> string \<Rightarrow> char \<Rightarrow> fault + string" where
  "put cap out c = (if length out < cap then Inr (out @ [c]) else Inl BufferOverflow)"

text \<open>\<^verbatim>\<open>while (*word) *dst++ = *word++;\<close>\<close>

fun put_word :: "nat \<Rightarrow> string \<Rightarrow> string \<Rightarrow> fault + string" where
  "put_word cap out [] = Inr out"
| "put_word cap out (w # ws) =
     (case put cap out w of Inl e \<Rightarrow> Inl e | Inr out' \<Rightarrow> put_word cap out' ws)"

text \<open>\<^verbatim>\<open>while (dst > out && (*(dst-1) == ' ' || *(dst-1) == '\t')) dst--;\<close>\<close>

definition rewind_blanks :: "string \<Rightarrow> string" where
  "rewind_blanks out = rev (dropWhile is_blank (rev out))"

text \<open>
  The clause-break handling, written twice in the source (lines 583--594 for the ASCII
  clause breaks, lines 636--646 for the dashes). \<open>rest\<close> is the input after the
  clause-break character itself.
\<close>

definition clause_break :: "nat \<Rightarrow> string \<Rightarrow> string \<Rightarrow> fault + (string \<times> string)" where
  "clause_break cap rest out =
     (let out1 = rewind_blanks out in
      case (if out1 \<noteq> [] then put cap out1 (CHR '','') else Inr out1) of
        Inl e \<Rightarrow> Inl e
      | Inr out2 \<Rightarrow>
          (let rest1 = dropWhile is_trailing_punct rest;
               rest2 = dropWhile is_blank rest1
           in case put cap out2 (CHR '' '') of
                Inl e \<Rightarrow> Inl e
              | Inr out3 \<Rightarrow> Inr (rest2, out3)))"

text \<open>Lines 603--606: the length of a multi-byte sequence, from its lead byte.\<close>

definition seqlen_of :: "char \<Rightarrow> nat" where
  "seqlen_of c = (if c < CHR 0xE0 then 2 else if c < CHR 0xF0 then 3 else 4)"

text \<open>Lines 617--619: the currency words of the two-byte sequences led by 0xC2.\<close>

definition currency_word :: "char \<Rightarrow> string option" where
  "currency_word c1 =
     (if c1 = CHR 0xA3 then Some ''pound''
      else if c1 = CHR 0xA2 then Some ''cent''
      else if c1 = CHR 0xA5 then Some ''yen''
      else None)"

text \<open>
  Lines 566--600: the iteration for a byte \<open>c\<close> below 0x80; \<open>rest\<close> is the input
  after \<open>c\<close>.
\<close>

definition sanitize_ascii :: "nat \<Rightarrow> char \<Rightarrow> string \<Rightarrow> string \<Rightarrow> fault + (string \<times> string)" where
  "sanitize_ascii cap c rest out =
     (if is_safe_char c then
        (case put cap out c of Inl e \<Rightarrow> Inl e | Inr out' \<Rightarrow> Inr (rest, out'))
      else if is_clause_break c then clause_break cap rest out
      else
        (case put cap out (CHR '' '') of Inl e \<Rightarrow> Inl e | Inr out' \<Rightarrow> Inr (rest, out')))"

text \<open>
  Lines 602--650: the iteration for a lead byte \<open>c\<close> of 0x80 or more; \<open>src\<close> is the
  input from \<open>c\<close> on. The validity test of lines 608--612 finds a NUL among the
  \<open>seqlen - 1\<close> bytes after the lead byte exactly when fewer than \<open>seqlen\<close> bytes
  remain, and then only the lead byte is skipped.
\<close>

definition sanitize_multibyte ::
  "nat \<Rightarrow> char \<Rightarrow> string \<Rightarrow> string \<Rightarrow> fault + (string \<times> string)" where
  "sanitize_multibyte cap c src out =
     (let seqlen = seqlen_of c in
      if length src < seqlen then Inr (drop 1 src, out)
      else if seqlen = 2 \<and> c = CHR 0xC2 \<and> currency_word (src ! 1) \<noteq> None then
        (case put_word cap out (the (currency_word (src ! 1))) of
           Inl e \<Rightarrow> Inl e
         | Inr out' \<Rightarrow> Inr (drop 2 src, out'))
      else if seqlen = 3 \<and> c = CHR 0xE2 \<and> src ! 1 = CHR 0x82 \<and> src ! 2 = CHR 0xAC then
        (case put_word cap out ''euro'' of
           Inl e \<Rightarrow> Inl e
         | Inr out' \<Rightarrow> Inr (drop 3 src, out'))
      else if seqlen = 3 \<and> c = CHR 0xE2 \<and> src ! 1 = CHR 0x80 \<and>
              (src ! 2 = CHR 0x94 \<or> src ! 2 = CHR 0x93) then
        clause_break cap (drop 3 src) out
      else
        (case put cap out (CHR '' '') of
           Inl e \<Rightarrow> Inl e
         | Inr out' \<Rightarrow> Inr (drop seqlen src, out')))"

text \<open>
  One iteration of the loop of line 563: the remaining input and the output so far, to
  the input and the output after the iteration.
\<close>

definition sanitize_step :: "nat \<Rightarrow> string \<Rightarrow> string \<Rightarrow> fault + (string \<times> string)" where
  "sanitize_step cap src out =
     (case src of
        [] \<Rightarrow> Inr ([], out)
      | c # rest \<Rightarrow>
          if c < CHR 0x80 then sanitize_ascii cap c rest out
          else sanitize_multibyte cap c src out)"

lemma clause_break_length:
  "clause_break cap rest out = Inr (rest', out') \<Longrightarrow> length rest' \<le> length rest"
proof -
  assume h: "clause_break cap rest out = Inr (rest', out')"
  have "rest' = dropWhile is_blank (dropWhile is_trailing_punct rest)"
    using h by (auto simp: clause_break_def Let_def split: sum.splits if_splits)
  moreover have "length (dropWhile is_blank (dropWhile is_trailing_punct rest))
      \<le> length (dropWhile is_trailing_punct rest)"
    by (rule length_dropWhile_le)
  moreover have "length (dropWhile is_trailing_punct rest) \<le> length rest"
    by (rule length_dropWhile_le)
  ultimately show ?thesis by simp
qed

lemma seqlen_of_pos: "0 < seqlen_of c"
  by (simp add: seqlen_of_def)

lemma sanitize_ascii_length:
  "sanitize_ascii cap c rest out = Inr (src', out') \<Longrightarrow> length src' \<le> length rest"
  unfolding sanitize_ascii_def
  by (auto split: if_splits sum.splits dest: clause_break_length)

lemma sanitize_multibyte_length:
  assumes "sanitize_multibyte cap c src out = Inr (src', out')" and "src \<noteq> []"
  shows "length src' < length src"
proof -
  have cb: "\<And>r. clause_break cap r out = Inr (src', out') \<Longrightarrow> length src' \<le> length r"
    by (rule clause_break_length)
  show ?thesis
    using assms seqlen_of_pos [of c] unfolding sanitize_multibyte_def Let_def
    by (auto split: if_splits sum.splits dest!: cb simp del: put_word.simps)
qed

lemma sanitize_step_length:
  assumes "sanitize_step cap src out = Inr (src', out')" and "src \<noteq> []"
  shows "length src' < length src"
proof -
  from assms(2) obtain c rest where src: "src = c # rest"
    by (cases src) auto
  show ?thesis
  proof (cases "c < CHR 0x80")
    case True
    then have "sanitize_ascii cap c rest out = Inr (src', out')"
      using assms(1) by (simp add: sanitize_step_def src)
    then show ?thesis using sanitize_ascii_length src by fastforce
  next
    case False
    then have "sanitize_multibyte cap c src out = Inr (src', out')"
      using assms(1) by (simp add: sanitize_step_def src)
    then show ?thesis using assms(2) by (rule sanitize_multibyte_length)
  qed
qed

text \<open>The loop of lines 563--651; the end of the list is the terminating NUL.\<close>

function sanitize_loop :: "nat \<Rightarrow> string \<Rightarrow> string \<Rightarrow> fault + string" where
  "sanitize_loop cap src out =
     (if src = [] then Inr out
      else case sanitize_step cap src out of
             Inl e \<Rightarrow> Inl e
           | Inr (src', out') \<Rightarrow> sanitize_loop cap src' out')"
  by pat_completeness auto
termination
  by (relation "measure (\<lambda>(cap, src, out). length src)")
     (auto dest: sanitize_step_length)

declare sanitize_loop.simps [simp del]

text \<open>
  \<^verbatim>\<open>sanitize_for_viavoice\<close>: \<open>Inr None\<close> is the NULL returned when \<^verbatim>\<open>malloc\<close>
  fails, \<open>Inr (Some out)\<close> the returned string. The buffer has
  \<open>2 * strlen(text) + 1\<close> bytes, and line 652 writes the terminating NUL at \<^verbatim>\<open>dst\<close>.
\<close>

definition sanitize_for_viavoice :: "bool \<Rightarrow> string \<Rightarrow> fault + string option" where
  "sanitize_for_viavoice malloc_ok text =
     (let src = c_str text;
          len = length src;
          cap = len * 2 + 1
      in if \<not> malloc_ok then Inr None
         else case sanitize_loop cap src [] of
                Inl e \<Rightarrow> Inl e
              | Inr out \<Rightarrow> if length out < cap then Inr (Some out) else Inl BufferOverflow)"

subsection \<open>The markup stripper\<close>

text \<open>
  The loop of lines 514--522 over the \<open>len\<close> bytes of \<open>text\<close>; the first argument
  is \<^verbatim>\<open>in_tag\<close>, the result the bytes stored in \<^verbatim>\<open>result\<close>.
\<close>

fun strip_tags :: "bool \<Rightarrow> string \<Rightarrow> string" where
  "strip_tags in_tag [] = []"
| "strip_tags in_tag (c # cs) =
     (if c = CHR ''<'' then strip_tags True cs
      else if c = CHR ''>'' then strip_tags False cs
      else if \<not> in_tag then c # strip_tags in_tag cs
      else strip_tags in_tag cs)"

text \<open>The table of lines 476--482: entity, replacement character, length.\<close>

definition entities :: "(string \<times> char \<times> nat) list" where
  "entities =
     [(''&amp;'', CHR ''&'', 5),
      (''&lt;'', CHR ''<'', 4),
      (''&gt;'', CHR ''>'', 4),
      (''&apos;'', CHR 0x27, 6),
      (''&quot;'', CHR 0x22, 6)]"

text \<open>
  The \<^verbatim>\<open>for\<close> loop of lines 488--495. \<^verbatim>\<open>strncmp(src, entity, len) == 0\<close> holds when
  the first \<open>len\<close> bytes of the two C strings agree.
\<close>

fun match_entity :: "(string \<times> char \<times> nat) list \<Rightarrow> string \<Rightarrow> (char \<times> nat) option" where
  "match_entity [] src = None"
| "match_entity ((entity, ch, len) # es) src =
     (if take len src = take len entity then Some (ch, len) else match_entity es src)"

lemma match_entity_entities_pos:
  "match_entity entities src = Some (ch, len) \<Longrightarrow> 0 < len"
  by (auto simp: entities_def split: if_splits)

text \<open>
  \<^verbatim>\<open>decode_xml_entities\<close> on the C string \<open>src\<close>. The source rewrites the buffer in
  place; \<^verbatim>\<open>dst\<close> never passes \<^verbatim>\<open>src\<close>, so the bytes still to be read are the
  original ones.
\<close>

function decode_xml_entities :: "string \<Rightarrow> string" where
  "decode_xml_entities src =
     (case src of
        [] \<Rightarrow> []
      | c # rest \<Rightarrow>
          if c = CHR ''&'' then
            (case match_entity entities src of
               Some (ch, len) \<Rightarrow> ch # decode_xml_entities (drop len src)
             | None \<Rightarrow> c # decode_xml_entities rest)
          else c # decode_xml_entities rest)"
  by pat_completeness auto
termination
  by (relation "measure length") (auto dest: match_entity_entities_pos)

declare decode_xml_entities.simps [simp del]

definition is_space :: "char \<Rightarrow> bool" where
  "is_space c \<longleftrightarrow> c = CHR '' '' \<or> c = CHR 0x0A \<or> c = CHR 0x09"

text \<open>
  \<^verbatim>\<open>while (end > start && (*end == ' ' || ...)) end--;\<close> on indices into
  \<^verbatim>\<open>result\<close>.
\<close>

function trim_end :: "string \<Rightarrow> nat \<Rightarrow> nat \<Rightarrow> nat" where
  "trim_end result start e =
     (if start < e \<and> is_space (result ! e) then trim_end result start (e - 1) else e)"
  by pat_completeness auto
termination
  by (relation "measure (\<lambda>(result, start, e). e)") auto

declare trim_end.simps [simp del]

text \<open>
  Lines 528--541: \<open>start\<close> and \<open>e\<close> are the indices \<^verbatim>\<open>start - result\<close> and
  \<^verbatim>\<open>end - result\<close>; line 536 cuts the string after \<open>e\<close>, line 540 moves it to the
  front of the buffer.
\<close>

definition trim_whitespace :: "string \<Rightarrow> string" where
  "trim_whitespace result =
     (let start = length (takeWhile is_space result);
          j = length result
      in if j = 0 then result
         else
           let e = trim_end result start (j - 1);
               result' = take (e + 1) result
           in if start \<noteq> 0 then drop start result' else result')"

text \<open>
  \<^verbatim>\<open>strip_ssml\<close>: \<open>None\<close> is the NULL returned when \<^verbatim>\<open>malloc\<close> fails. After the
  tag loop the buffer is used as a C string, so it ends at its first NUL byte.
\<close>

definition strip_ssml :: "bool \<Rightarrow> string \<Rightarrow> string option" where
  "strip_ssml malloc_ok text =
     (if \<not> malloc_ok then None
      else Some (trim_whitespace (decode_xml_entities (c_str (strip_tags False text)))))"

subsection \<open>The audio collector\<close>

datatype ECIMessage = eciWaveformBuffer | eciPhonemeBuffer | eciIndexReply | eciPhonemeIndexReply

datatype ECICallbackReturn = eciDataNotProcessed | eciDataProcessed

type_synonym sample = "16 word"

text \<open>
  \<^verbatim>\<open>AudioData\<close>: \<open>samples\<close> is the pointer, \<open>None\<close> for NULL and otherwise the
  contents of the block it points to.
\<close>

record AudioData =
  samples :: "sample list option"
  num_samples :: int
  allocated :: int

text \<open>
  The module's global variables the audio path uses. \<open>eciHandle\<close> holds whether the
  handle differs from \<^verbatim>\<open>NULL_ECI_HAND\<close>; \<open>audio_buffer\<close> is the contents of the
  scratch buffer the engine fills before each callback.
\<close>

record module_state =
  eciHandle :: bool
  audio_buffer :: "sample list"
  audio_buffer_size :: int
  stop_requested :: bool
  eci_sample_rate :: int
  audio_data :: AudioData

text \<open>The value of a sum in a 32-bit \<^verbatim>\<open>int\<close>: it wraps around.\<close>

definition int32 :: "int \<Rightarrow> int" where
  "int32 x = (x + 2147483648) mod 4294967296 - 2147483648"

text \<open>
  The number of samples in a block of \<^verbatim>\<open>n * sizeof(short)\<close> bytes, the product taken
  in the 32 bits of \<^verbatim>\<open>size_t\<close>; it is \<open>n\<close> for every \<open>n\<close> from 0 to the largest
  \<^verbatim>\<open>int\<close>.
\<close>

definition samples_in_bytes :: "int \<Rightarrow> int" where
  "samples_in_bytes n = ((n * 2) mod 4294967296) div 2"

text \<open>
  \<^verbatim>\<open>realloc(p, n * sizeof(short))\<close>: NULL on failure, otherwise a block of that many
  bytes that starts with the old contents. The cells beyond them are unspecified in C;
  the model fills them with 0.
\<close>

definition realloc_samples :: "bool \<Rightarrow> sample list option \<Rightarrow> int \<Rightarrow> sample list option" where
  "realloc_samples ok p n =
     (if \<not> ok then None
      else Some (take (nat (samples_in_bytes n))
                  ((case p of None \<Rightarrow> [] | Some b \<Rightarrow> b) @
                   replicate (nat (samples_in_bytes n)) 0)))"

text \<open>
  \<^verbatim>\<open>memcpy(dst + ofs, src, n * sizeof(short))\<close>: a copy of no sample changes nothing; a
  copy through NULL, of a negative count, from beyond the source or to beyond the
  destination block is a memory fault.
\<close>

definition memcpy_samples ::
  "sample list option \<Rightarrow> int \<Rightarrow> sample list \<Rightarrow> int \<Rightarrow> fault + sample list option" where
  "memcpy_samples dst ofs src n =
     (if n = 0 then Inr dst
      else if n < 0 \<or> ofs < 0 \<or> int (length src) < n then Inl MemoryFault
      else case dst of
             None \<Rightarrow> Inl MemoryFault
           | Some b \<Rightarrow>
               if int (length b) < ofs + n then Inl MemoryFault
               else Inr (Some (take (nat ofs) b @ take (nat n) src @ drop (nat (ofs + n)) b)))"

text \<open>
  Lines 85--108 of \<^verbatim>\<open>eci_callback\<close>: what the callback does once it has read
  \<^verbatim>\<open>stop_requested\<close> as clear. \<open>realloc_ok\<close> is the outcome of the \<^verbatim>\<open>realloc\<close> of
  line 93, should it be called.
\<close>

definition eci_callback_collect ::
  "module_state \<Rightarrow> ECIMessage \<Rightarrow> int \<Rightarrow> bool \<Rightarrow> fault + (ECICallbackReturn \<times> module_state)" where
  "eci_callback_collect s msg param realloc_ok =
     (if msg = eciWaveformBuffer then
        (let ad = audio_data s;
             new_samples = param;
             new_size = int32 (num_samples ad + new_samples);
             alloc_size = int32 (new_size + audio_buffer_size s);
             ad1 = (if new_size > allocated ad
                    then ad\<lparr>samples := realloc_samples realloc_ok (samples ad) alloc_size\<rparr>
                    else ad)
         in if new_size > allocated ad \<and> samples ad1 = None
            then Inr (eciDataNotProcessed, s\<lparr>audio_data := ad1\<rparr>)
            else
              (let ad2 = (if new_size > allocated ad then ad1\<lparr>allocated := alloc_size\<rparr> else ad1)
               in case memcpy_samples (samples ad2) (num_samples ad2) (audio_buffer s) new_samples of
                    Inl f \<Rightarrow> Inl f
                  | Inr p \<Rightarrow>
                      Inr (eciDataProcessed,
                           s\<lparr>audio_data := ad2\<lparr>samples := p, num_samples := new_size\<rparr>\<rparr>)))
      else Inr (eciDataProcessed, s))"

text \<open>\<^verbatim>\<open>eci_callback\<close>: the test of line 82, then the rest.\<close>

definition eci_callback ::
  "module_state \<Rightarrow> ECIMessage \<Rightarrow> int \<Rightarrow> bool \<Rightarrow> fault + (ECICallbackReturn \<times> module_state)" where
  "eci_callback s msg param realloc_ok =
     (if stop_requested s then Inr (eciDataNotProcessed, s)
      else eci_callback_collect s msg param realloc_ok)"

text \<open>
  \<^verbatim>\<open>module_stop\<close> and \<^verbatim>\<open>module_pause\<close> set the flag and ask the engine to stop; neither
  takes \<^verbatim>\<open>audio_mutex\<close>.
\<close>

definition module_stop :: "module_state \<Rightarrow> module_state" where
  "module_stop s = s\<lparr>stop_requested := True\<rparr>"

definition module_pause :: "module_state \<Rightarrow> module_state" where
  "module_pause s = s\<lparr>stop_requested := True\<rparr>"

subsection \<open>The orchestrator\<close>

text \<open>
  Modelled from the spec: the message kinds of \<^verbatim>\<open>SPDMessageType\<close>, declared in
  \<^verbatim>\<open>spd_module_main.h\<close>, which is not among the sources (the spec lists ordinary text,
  single character, key name and sound-icon label; the host library also has a spelling
  kind).
\<close>

datatype SPDMessageType =
  SPD_MSGTYPE_TEXT | SPD_MSGTYPE_SOUND_ICON | SPD_MSGTYPE_CHAR | SPD_MSGTYPE_KEY |
  SPD_MSGTYPE_SPELL

text \<open>\<^verbatim>\<open>AudioTrack\<close> of \<^verbatim>\<open>spd_audio.h\<close>; \<open>track_samples\<close> is the pointer handed over.\<close>

record AudioTrack =
  bits :: int
  num_channels :: int
  sample_rate :: int
  track_num_samples :: int
  track_samples :: "sample list option"

text \<open>
  What \<^verbatim>\<open>module_speak_sync\<close> does to its collaborators, in order: the host functions it
  calls and the text it hands to the engine. \<open>crashed\<close> ends a run that reached
  undefined behaviour.
\<close>

datatype action =
  module_speak_error
| module_speak_ok
| eciAddText string
| module_report_event_begin
| module_report_event_end
| module_report_event_stop
| module_tts_output_server AudioTrack
| crashed fault

text \<open>
  What happens while the engine synthesizes (between the call of \<^verbatim>\<open>eciSynthesize\<close> and
  the return of \<^verbatim>\<open>eciSynchronize\<close>): the engine fills the scratch buffer and calls
  \<^verbatim>\<open>eci_callback\<close> with a message kind and a count (\<open>Fragment\<close>, with the outcome of a
  \<^verbatim>\<open>realloc\<close> the callback may make), or a stop request arrives between two callbacks.
\<close>

datatype engine_event =
  Fragment ECIMessage int "sample list" bool
| StopRequest

text \<open>The collaborators of one speak request: allocator, engine, stop requests.\<close>

record environment =
  strip_malloc_ok :: bool
  sanitize_malloc_ok :: bool
  eciAddText_ok :: bool
  eciSynthesize_ok :: bool
  synthesis :: "engine_event list"

fun run_engine :: "module_state \<Rightarrow> engine_event list \<Rightarrow> fault + module_state" where
  "run_engine s [] = Inr s"
| "run_engine s (StopRequest # evs) = run_engine (module_stop s) evs"
| "run_engine s (Fragment msg param frag realloc_ok # evs) =
     (case eci_callback (s\<lparr>audio_buffer := frag\<rparr>) msg param realloc_ok of
        Inl f \<Rightarrow> Inl f
      | Inr (r, s') \<Rightarrow> run_engine s' evs)"

text \<open>Lines 732--737: the track built from \<^verbatim>\<open>audio_data\<close>.\<close>

definition make_track :: "module_state \<Rightarrow> AudioTrack" where
  "make_track s =
     \<lparr>bits = 16, num_channels = 1, sample_rate = eci_sample_rate s,
      track_num_samples = num_samples (audio_data s),
      track_samples = samples (audio_data s)\<rparr>"

text \<open>
  \<^verbatim>\<open>module_speak_sync\<close>: the actions performed and the module state afterwards. The
  calls of \<^verbatim>\<open>eciSetVoiceParam\<close> and of \<^verbatim>\<open>eciSynthesize\<close> and \<^verbatim>\<open>eciSynchronize\<close>
  themselves are not recorded as actions.
\<close>

definition module_speak_sync ::
  "environment \<Rightarrow> module_state \<Rightarrow> string \<Rightarrow> SPDMessageType \<Rightarrow> action list \<times> module_state" where
  "module_speak_sync env s0 data msgtype =
     (if \<not> eciHandle s0 then ([module_speak_error], s0)
      else
        (let s = s0\<lparr>stop_requested := False\<rparr>;
             s = s\<lparr>audio_data := (audio_data s)\<lparr>num_samples := 0\<rparr>\<rparr>
         in (case strip_ssml (strip_malloc_ok env) data of
               None \<Rightarrow> ([module_speak_error], s)
             | Some text \<Rightarrow>
                 (if text = [] then ([module_speak_error], s)
                  else
                    (case (if msgtype = SPD_MSGTYPE_TEXT \<or> msgtype = SPD_MSGTYPE_SOUND_ICON
                           then sanitize_for_viavoice (sanitize_malloc_ok env) text
                           else Inr (Some text)) of
                       Inl f \<Rightarrow> ([crashed f], s)
                     | Inr None \<Rightarrow> ([module_speak_error], s)
                     | Inr (Some text) \<Rightarrow>
                         (if text = [] then ([module_speak_error], s)
                          else if \<not> eciAddText_ok env then
                            ([module_speak_ok, eciAddText text, module_report_event_end], s)
                          else if \<not> eciSynthesize_ok env then
                            ([module_speak_ok, eciAddText text, module_report_event_begin,
                              module_report_event_end], s)
                          else
                            (case run_engine s (synthesis env) of
                               Inl f \<Rightarrow>
                                 ([module_speak_ok, eciAddText text, module_report_event_begin,
                                   crashed f], s)
                             | Inr s' \<Rightarrow>
                                 (if stop_requested s' then
                                    ([module_speak_ok, eciAddText text,
                                      module_report_event_begin, module_report_event_stop], s')
                                  else
                                    ([module_speak_ok, eciAddText text,
                                      module_report_event_begin] @
                                     (if num_samples (audio_data s') > 0
                                      then [module_tts_output_server (make_track s')]
                                      else []) @
                                     [module_report_event_end], s')))))))))"

text \<open>The texts handed to \<^verbatim>\<open>eciAddText\<close> in a run.\<close>

fun submitted_texts :: "action list \<Rightarrow> string list" where
  "submitted_texts [] = []"
| "submitted_texts (eciAddText t # as) = t # submitted_texts as"
| "submitted_texts (a # as) = submitted_texts as"

text \<open>The tracks handed to \<^verbatim>\<open>module_tts_output_server\<close> in a run.\<close>

fun delivered_tracks :: "action list \<Rightarrow> AudioTrack list" where
  "delivered_tracks [] = []"
| "delivered_tracks (module_tts_output_server t # as) = t # delivered_tracks as"
| "delivered_tracks (a # as) = delivered_tracks as"

text \<open>The module state once \<^verbatim>\<open>module_init\<close> has succeeded and nothing was spoken yet.\<close>

definition initial_state :: module_state where
  "initial_state =
     \<lparr>eciHandle = True, audio_buffer = replicate 20000 0, audio_buffer_size = 20000,
      stop_requested = False, eci_sample_rate = 22050,
      audio_data = \<lparr>samples = None, num_samples = 0, allocated = 0\<rparr>\<rparr>"

subsection \<open>The callback interleaved with a stop request\<close>

text \<open>
  \<^verbatim>\<open>module_stop\<close> runs on another thread than the callback and takes no lock, so its
  write of \<^verbatim>\<open>stop_requested\<close> can fall between the callback's test of line 82 and the
  locked region of lines 86--105. A schedule is a list of events: a callback invocation
  begins and tests the flag (\<open>CallbackEnter\<close>), the invocation that passed the test runs
  lines 85--108 (\<open>CallbackResume\<close>), or a stop request sets the flag (\<open>Stop\<close>).
  \<open>in_flight\<close> holds the arguments of an invocation that has passed the test and not
  yet run the rest.
\<close>

datatype sched_event =
  CallbackEnter ECIMessage int "sample list" bool
| CallbackResume
| Stop

record sched_state =
  mstate :: module_state
  in_flight :: "(ECIMessage \<times> int \<times> bool) option"

fun sched_step :: "sched_state \<Rightarrow> sched_event \<Rightarrow> fault + sched_state" where
  "sched_step st (CallbackEnter msg param frag realloc_ok) =
     (if in_flight st \<noteq> None then Inr st
      else
        let s = (mstate st)\<lparr>audio_buffer := frag\<rparr>
        in if stop_requested s then Inr (st\<lparr>mstate := s\<rparr>)
           else Inr (st\<lparr>mstate := s, in_flight := Some (msg, param, realloc_ok)\<rparr>))"
| "sched_step st CallbackResume =
     (case in_flight st of
        None \<Rightarrow> Inr st
      | Some (msg, param, realloc_ok) \<Rightarrow>
          (case eci_callback_collect (mstate st) msg param realloc_ok of
             Inl f \<Rightarrow> Inl f
           | Inr (r, s') \<Rightarrow> Inr (st\<lparr>mstate := s', in_flight := None\<rparr>)))"
| "sched_step st Stop = Inr (st\<lparr>mstate := module_stop (mstate st)\<rparr>)"

fun sched_run :: "sched_state \<Rightarrow> sched_event list \<Rightarrow> fault + sched_state" where
  "sched_run st [] = Inr st"
| "sched_run st (ev # evs) =
     (case sched_step st ev of Inl f \<Rightarrow> Inl f | Inr st' \<Rightarrow> sched_run st' evs)"

subsection \<open>Notions of the specification\<close>

text \<open>
  The safe set the specification declares for sanitized text: ASCII letters, digits,
  space, tab, newline and the punctuation \<^verbatim>\<open>. , ! ? $ '\<close>.
\<close>

definition declared_safe_set :: "char set" where
  "declared_safe_set =
     set ''ABCDEFGHIJKLMNOPQRSTUVWXYZ'' \<union> set ''abcdefghijklmnopqrstuvwxyz'' \<union>
     set ''0123456789'' \<union> {CHR '' '', CHR 0x09, CHR 0x0A} \<union>
     {CHR ''.'', CHR '','', CHR ''!'', CHR ''?'', CHR ''$'', CHR 0x27}"

text \<open>
  Trimming as the specification words it: leading and trailing space, tab and newline
  removed, nothing else changed.
\<close>

definition trimmed :: "string \<Rightarrow> string" where
  "trimmed xs = rev (dropWhile is_space (rev (dropWhile is_space xs)))"

text \<open>
  An environment in which every allocation of the text path succeeds and the engine
  accepts the text and the synthesis call; \<open>evs\<close> is what happens during synthesis.
\<close>

definition cooperative :: "engine_event list \<Rightarrow> environment" where
  "cooperative evs =
     \<lparr>strip_malloc_ok = True, sanitize_malloc_ok = True, eciAddText_ok = True,
      eciSynthesize_ok = True, synthesis = evs\<rparr>"

text \<open>No callback invocation is under way.\<close>

definition idle :: "module_state \<Rightarrow> sched_state" where
  "idle s = \<lparr>mstate = s, in_flight = None\<rparr>"

section \<open>Properties\<close>

subsection \<open>The audio callback\<close>

text \<open>
  C8. If \<^verbatim>\<open>stop_requested\<close> is set when a callback invocation begins, the invocation
  returns \<^verbatim>\<open>eciDataNotProcessed\<close> and leaves the whole module state, and so the
  contents and the logical length of \<^verbatim>\<open>audio_data\<close>, unchanged: nothing is copied.
\<close>

theorem callback_refuses_when_stopped:
  assumes "stop_requested s"
  shows "eci_callback s msg param realloc_ok = Inr (eciDataNotProcessed, s)"
  using assms by (simp add: eci_callback_def)

theorem callback_refuses_when_stopped_witness:
  "stop_requested (module_stop initial_state) \<and>
   eci_callback (module_stop initial_state) eciWaveformBuffer 100 True
     = Inr (eciDataNotProcessed, module_stop initial_state)"
proof -
  have h: "stop_requested (module_stop initial_state)"
    by (simp add: module_stop_def)
  show ?thesis
    using h callback_refuses_when_stopped [OF h, of eciWaveformBuffer 100 True] by simp
qed

text \<open>
  C10. For a message kind other than \<^verbatim>\<open>eciWaveformBuffer\<close>, with the cancellation flag
  clear, the callback leaves the module state (\<^verbatim>\<open>audio_data.samples\<close>,
  \<^verbatim>\<open>num_samples\<close>, \<^verbatim>\<open>allocated\<close> and all the rest) unchanged and returns
  \<^verbatim>\<open>eciDataProcessed\<close>.
\<close>

theorem callback_ignores_other_messages:
  assumes "msg \<noteq> eciWaveformBuffer" and "\<not> stop_requested s"
  shows "eci_callback s msg param realloc_ok = Inr (eciDataProcessed, s)"
  using assms by (simp add: eci_callback_def eci_callback_collect_def)

theorem callback_ignores_other_messages_witness:
  "eciPhonemeBuffer \<noteq> eciWaveformBuffer \<and> \<not> stop_requested initial_state \<and>
   eci_callback initial_state eciPhonemeBuffer 7 False = Inr (eciDataProcessed, initial_state)"
proof -
  have h1: "eciPhonemeBuffer \<noteq> eciWaveformBuffer" by simp
  have h2: "\<not> stop_requested initial_state" by (simp add: initial_state_def)
  show ?thesis
    using h1 h2 callback_ignores_other_messages [OF h1 h2, of 7 False] by simp
qed

subsection \<open>The text sanitizer\<close>

text \<open>
  C3. On the input \<^verbatim>\<open>wait; really?\<close> the sanitizer returns
  \<^verbatim>\<open>wait, really?\<close>: the semicolon becomes a comma attached to \<^verbatim>\<open>wait\<close>, and
  the question mark, a safe character that follows no clause break, is kept.
\<close>

theorem sanitize_wait_really:
  "sanitize_for_viavoice True ''wait; really?'' = Inr (Some ''wait, really?'')"
  by code_simp

text \<open>The output the specification expects for that input is not what the code returns.\<close>

theorem sanitize_wait_really_counterexample:
  "sanitize_for_viavoice True ''wait; really?'' \<noteq> Inr (Some ''wait, really '')"
  by code_simp

text \<open>Every byte the code passes through or emits is in the declared safe set.\<close>

lemma upper_in_set:
  assumes "CHR ''A'' \<le> c" "c \<le> CHR ''Z''"
  shows "c \<in> set ''ABCDEFGHIJKLMNOPQRSTUVWXYZ''"
proof -
  have "(of_char c :: nat) \<in> of_char ` set ''ABCDEFGHIJKLMNOPQRSTUVWXYZ''"
    using assms unfolding less_eq_char_def by simp arith
  then show ?thesis
    by (simp only: inj_image_mem_iff [OF inj_of_char])
qed

lemma lower_in_set:
  assumes "CHR ''a'' \<le> c" "c \<le> CHR ''z''"
  shows "c \<in> set ''abcdefghijklmnopqrstuvwxyz''"
proof -
  have "(of_char c :: nat) \<in> of_char ` set ''abcdefghijklmnopqrstuvwxyz''"
    using assms unfolding less_eq_char_def by simp arith
  then show ?thesis
    by (simp only: inj_image_mem_iff [OF inj_of_char])
qed

lemma digit_in_set:
  assumes "CHR ''0'' \<le> c" "c \<le> CHR ''9''"
  shows "c \<in> set ''0123456789''"
proof -
  have "(of_char c :: nat) \<in> of_char ` set ''0123456789''"
    using assms unfolding less_eq_char_def by simp arith
  then show ?thesis
    by (simp only: inj_image_mem_iff [OF inj_of_char])
qed

lemma is_safe_char_declared: "is_safe_char c \<Longrightarrow> c \<in> declared_safe_set"
  unfolding is_safe_char_def declared_safe_set_def
  using upper_in_set [of c] lower_in_set [of c] digit_in_set [of c] by blast

lemma declared_safe_ascii: "c \<in> declared_safe_set \<Longrightarrow> c < CHR 0x80"
  unfolding declared_safe_set_def by (auto simp: less_char_def)

lemma declared_safe_no_markup:
  "c \<in> declared_safe_set \<Longrightarrow> c \<noteq> CHR ''<'' \<and> c \<noteq> CHR ''>'' \<and> c \<noteq> CHR ''&''"
  unfolding declared_safe_set_def by auto

lemma put_safe:
  "put cap out c = Inr out' \<Longrightarrow> set out \<subseteq> A \<Longrightarrow> c \<in> A \<Longrightarrow> set out' \<subseteq> A"
  by (auto simp: put_def split: if_splits)

lemma put_word_safe:
  "put_word cap out w = Inr out' \<Longrightarrow> set out \<subseteq> A \<Longrightarrow> set w \<subseteq> A \<Longrightarrow> set out' \<subseteq> A"
proof (induction w arbitrary: out)
  case Nil
  then show ?case by simp
next
  case (Cons a w)
  from Cons.prems(1) obtain mid where m: "put cap out a = Inr mid"
    and r: "put_word cap mid w = Inr out'"
    by (auto split: sum.splits)
  have "set mid \<subseteq> A"
    using put_safe [OF m Cons.prems(2)] Cons.prems(3) by simp
  then show ?case
    using Cons.IH [OF r] Cons.prems(3) by simp
qed

lemma rewind_blanks_subset: "set (rewind_blanks out) \<subseteq> set out"
  unfolding rewind_blanks_def using set_dropWhileD [of _ is_blank "rev out"] by auto

lemma clause_break_safe:
  assumes "clause_break cap rest out = Inr (rest', out')" "set out \<subseteq> A"
    "CHR '','' \<in> A" "CHR '' '' \<in> A"
  shows "set out' \<subseteq> A"
proof -
  have r: "set (rewind_blanks out) \<subseteq> A"
    using rewind_blanks_subset assms(2) by blast
  from assms(1) obtain out2 where
    o2: "(if rewind_blanks out \<noteq> [] then put cap (rewind_blanks out) (CHR '','')
          else Inr (rewind_blanks out)) = Inr out2"
    and o3: "put cap out2 (CHR '' '') = Inr out'"
    unfolding clause_break_def Let_def by (simp split: sum.splits)
  have "set out2 \<subseteq> A"
  proof (cases "rewind_blanks out \<noteq> []")
    case True
    with o2 have "put cap (rewind_blanks out) (CHR '','') = Inr out2" by simp
    then show ?thesis using r assms(3) by (rule put_safe)
  next
    case False
    with o2 r show ?thesis by simp
  qed
  with o3 show ?thesis using assms(4) by (rule put_safe)
qed

lemma currency_word_safe: "currency_word c = Some w \<Longrightarrow> set w \<subseteq> declared_safe_set"
  by (auto simp: currency_word_def declared_safe_set_def split: if_splits)

lemma sanitize_ascii_safe:
  assumes st: "sanitize_ascii cap c rest out = Inr (src', out')"
    and inv: "set out \<subseteq> declared_safe_set"
  shows "set out' \<subseteq> declared_safe_set"
proof -
  have comma: "CHR '','' \<in> declared_safe_set" and space: "CHR '' '' \<in> declared_safe_set"
    by (simp_all add: declared_safe_set_def)
  show ?thesis
  proof (cases "is_safe_char c")
    case True
    then have "put cap out c = Inr out'"
      using st unfolding sanitize_ascii_def by (simp split: sum.splits)
    then show ?thesis using inv is_safe_char_declared [OF True] by (rule put_safe)
  next
    case unsafe: False
    show ?thesis
    proof (cases "is_clause_break c")
      case True
      then have "clause_break cap rest out = Inr (src', out')"
        using st unsafe unfolding sanitize_ascii_def by simp
      then show ?thesis using inv comma space by (rule clause_break_safe)
    next
      case False
      then have "put cap out (CHR '' '') = Inr out'"
        using st unsafe unfolding sanitize_ascii_def by (simp split: sum.splits)
      then show ?thesis using inv space by (rule put_safe)
    qed
  qed
qed

lemma sanitize_multibyte_safe:
  assumes st: "sanitize_multibyte cap c src out = Inr (src', out')"
    and inv: "set out \<subseteq> declared_safe_set"
  shows "set out' \<subseteq> declared_safe_set"
proof -
  have comma: "CHR '','' \<in> declared_safe_set" and space: "CHR '' '' \<in> declared_safe_set"
    and euro_safe: "set ''euro'' \<subseteq> declared_safe_set"
    by (simp_all add: declared_safe_set_def)
  let ?short = "length src < seqlen_of c"
  let ?cur = "seqlen_of c = 2 \<and> c = CHR 0xC2 \<and> currency_word (src ! 1) \<noteq> None"
  let ?euro = "seqlen_of c = 3 \<and> c = CHR 0xE2 \<and> src ! 1 = CHR 0x82 \<and> src ! 2 = CHR 0xAC"
  let ?dash = "seqlen_of c = 3 \<and> c = CHR 0xE2 \<and> src ! 1 = CHR 0x80 \<and>
               (src ! 2 = CHR 0x94 \<or> src ! 2 = CHR 0x93)"
  consider (short) ?short
    | (cur) "\<not> ?short" ?cur
    | (euro) "\<not> ?short" "\<not> ?cur" ?euro
    | (dash) "\<not> ?short" "\<not> ?cur" "\<not> ?euro" ?dash
    | (other) "\<not> ?short" "\<not> ?cur" "\<not> ?euro" "\<not> ?dash"
    by blast
  then show ?thesis
  proof cases
    case short
    note e = Eq_TrueI [OF short]
    have "Inr (drop 1 src, out) = (Inr (src', out') :: fault + (string \<times> string))"
      using st unfolding sanitize_multibyte_def Let_def e if_True .
    then show ?thesis using inv by simp
  next
    case cur
    note e = Eq_FalseI [OF cur(1)] Eq_TrueI [OF cur(2)]
    from cur obtain w where w: "currency_word (src ! 1) = Some w" by auto
    have "(case put_word cap out (the (currency_word (src ! 1))) of
             Inl e \<Rightarrow> Inl e | Inr out' \<Rightarrow> Inr (drop 2 src, out')) = Inr (src', out')"
      using st unfolding sanitize_multibyte_def Let_def e if_True if_False .
    then have "put_word cap out w = Inr out'"
      unfolding w by (simp split: sum.splits del: put_word.simps)
    then show ?thesis using inv currency_word_safe [OF w] by (rule put_word_safe)
  next
    case euro
    note e = Eq_FalseI [OF euro(1)] Eq_FalseI [OF euro(2)] Eq_TrueI [OF euro(3)]
    have "(case put_word cap out ''euro'' of
             Inl e \<Rightarrow> Inl e | Inr out' \<Rightarrow> Inr (drop 3 src, out')) = Inr (src', out')"
      using st unfolding sanitize_multibyte_def Let_def e if_True if_False .
    then have "put_word cap out ''euro'' = Inr out'"
      by (simp split: sum.splits del: put_word.simps)
    then show ?thesis using inv euro_safe by (rule put_word_safe)
  next
    case dash
    note e = Eq_FalseI [OF dash(1)] Eq_FalseI [OF dash(2)] Eq_FalseI [OF dash(3)]
      Eq_TrueI [OF dash(4)]
    have "clause_break cap (drop 3 src) out = Inr (src', out')"
      using st unfolding sanitize_multibyte_def Let_def e if_True if_False .
    then show ?thesis using inv comma space by (rule clause_break_safe)
  next
    case other
    note e = Eq_FalseI [OF other(1)] Eq_FalseI [OF other(2)] Eq_FalseI [OF other(3)]
      Eq_FalseI [OF other(4)]
    have "(case put cap out (CHR '' '') of
             Inl e \<Rightarrow> Inl e | Inr out' \<Rightarrow> Inr (drop (seqlen_of c) src, out')) = Inr (src', out')"
      using st unfolding sanitize_multibyte_def Let_def e if_True if_False .
    then have "put cap out (CHR '' '') = Inr out'"
      by (simp split: sum.splits)
    then show ?thesis using inv space by (rule put_safe)
  qed
qed

lemma sanitize_step_safe:
  assumes st: "sanitize_step cap src out = Inr (src', out')"
    and inv: "set out \<subseteq> declared_safe_set"
  shows "set out' \<subseteq> declared_safe_set"
proof (cases src)
  case Nil
  then show ?thesis using st inv by (simp add: sanitize_step_def)
next
  case (Cons c rest)
  show ?thesis
  proof (cases "c < CHR 0x80")
    case True
    then have "sanitize_ascii cap c rest out = Inr (src', out')"
      using st by (simp add: sanitize_step_def Cons)
    then show ?thesis using inv by (rule sanitize_ascii_safe)
  next
    case False
    then have "sanitize_multibyte cap c src out = Inr (src', out')"
      using st by (simp add: sanitize_step_def Cons)
    then show ?thesis using inv by (rule sanitize_multibyte_safe)
  qed
qed

lemma sanitize_loop_safe:
  "sanitize_loop cap src out = Inr res \<Longrightarrow> set out \<subseteq> declared_safe_set
     \<Longrightarrow> set res \<subseteq> declared_safe_set"
proof (induction cap src out rule: sanitize_loop.induct)
  case (1 cap src out)
  show ?case
  proof (cases "src = []")
    case True
    then show ?thesis using "1.prems" by (simp add: sanitize_loop.simps [of cap "[]"])
  next
    case False
    then obtain src' out' where st: "sanitize_step cap src out = Inr (src', out')"
      and rec: "sanitize_loop cap src' out' = Inr res"
      using "1.prems"(1) by (auto simp: sanitize_loop.simps [of cap src out] split: sum.splits)
    have "set out' \<subseteq> declared_safe_set"
      using sanitize_step_safe [OF st "1.prems"(2)] .
    then show ?thesis
      using "1.IH" [OF False st refl rec] by simp
  qed
qed

text \<open>
  A larger buffer changes nothing in a run that fits, and a buffer of more than five
  times the input length holds every run: no iteration writes more than the five bytes of
  \<^verbatim>\<open>pound\<close>.
\<close>

lemma put_mono: "put cap out c = Inr o' \<Longrightarrow> cap \<le> cap' \<Longrightarrow> put cap' out c = Inr o'"
  by (auto simp: put_def split: if_splits)

lemma put_word_mono:
  "put_word cap out w = Inr o' \<Longrightarrow> cap \<le> cap' \<Longrightarrow> put_word cap' out w = Inr o'"
proof (induction w arbitrary: out)
  case Nil
  then show ?case by simp
next
  case (Cons a w)
  from Cons.prems(1) obtain mid where m: "put cap out a = Inr mid"
    and r: "put_word cap mid w = Inr o'"
    by (auto split: sum.splits)
  show ?case
    using put_mono [OF m Cons.prems(2)] Cons.IH [OF r Cons.prems(2)] by simp
qed

lemma clause_break_mono:
  assumes "clause_break cap rest out = Inr res" and "cap \<le> cap'"
  shows "clause_break cap' rest out = Inr res"
proof -
  from assms(1) obtain out2 out3 where
    o2: "(if rewind_blanks out \<noteq> [] then put cap (rewind_blanks out) (CHR '','')
          else Inr (rewind_blanks out)) = Inr out2"
    and o3: "put cap out2 (CHR '' '') = Inr out3"
    and res: "res = (dropWhile is_blank (dropWhile is_trailing_punct rest), out3)"
    unfolding clause_break_def Let_def by (auto split: sum.splits)
  have o2': "(if rewind_blanks out \<noteq> [] then put cap' (rewind_blanks out) (CHR '','')
          else Inr (rewind_blanks out)) = Inr out2"
    using o2 put_mono [OF _ assms(2)] by (auto split: if_splits)
  have o3': "put cap' out2 (CHR '' '') = Inr out3"
    using o3 assms(2) by (rule put_mono)
  show ?thesis
    unfolding clause_break_def Let_def o2' by (simp add: o3' res)
qed

lemma sanitize_ascii_mono:
  assumes "sanitize_ascii cap c rest out = Inr res" and "cap \<le> cap'"
  shows "sanitize_ascii cap' c rest out = Inr res"
  using assms(1) put_mono [OF _ assms(2)] clause_break_mono [OF _ assms(2)]
  unfolding sanitize_ascii_def
  by (auto split: if_splits sum.splits)

lemma sanitize_multibyte_mono:
  assumes run: "sanitize_multibyte cap c src out = Inr res" and le: "cap \<le> cap'"
  shows "sanitize_multibyte cap' c src out = Inr res"
proof -
  let ?short = "length src < seqlen_of c"
  let ?cur = "seqlen_of c = 2 \<and> c = CHR 0xC2 \<and> currency_word (src ! 1) \<noteq> None"
  let ?euro = "seqlen_of c = 3 \<and> c = CHR 0xE2 \<and> src ! 1 = CHR 0x82 \<and> src ! 2 = CHR 0xAC"
  let ?dash = "seqlen_of c = 3 \<and> c = CHR 0xE2 \<and> src ! 1 = CHR 0x80 \<and>
               (src ! 2 = CHR 0x94 \<or> src ! 2 = CHR 0x93)"
  consider (short) ?short
    | (cur) "\<not> ?short" ?cur
    | (euro) "\<not> ?short" "\<not> ?cur" ?euro
    | (dash) "\<not> ?short" "\<not> ?cur" "\<not> ?euro" ?dash
    | (other) "\<not> ?short" "\<not> ?cur" "\<not> ?euro" "\<not> ?dash"
    by blast
  then show ?thesis
  proof cases
    case short
    note e = Eq_TrueI [OF short]
    have "Inr (drop 1 src, out) = (Inr res :: fault + (string \<times> string))"
      using run unfolding sanitize_multibyte_def Let_def e if_True .
    then show ?thesis
      unfolding sanitize_multibyte_def Let_def e if_True .
  next
    case cur
    note e = Eq_FalseI [OF cur(1)] Eq_TrueI [OF cur(2)]
    let ?w = "the (currency_word (src ! 1))"
    have "(case put_word cap out ?w of
             Inl e \<Rightarrow> Inl e | Inr out' \<Rightarrow> Inr (drop 2 src, out')) = Inr res"
      using run unfolding sanitize_multibyte_def Let_def e if_True if_False .
    then obtain o' where p: "put_word cap out ?w = Inr o'" and r: "res = (drop 2 src, o')"
      by (auto split: sum.splits simp del: put_word.simps)
    have p': "put_word cap' out ?w = Inr o'"
      using p le by (rule put_word_mono)
    show ?thesis
      unfolding sanitize_multibyte_def Let_def e if_True if_False p' r by simp
  next
    case euro
    note e = Eq_FalseI [OF euro(1)] Eq_FalseI [OF euro(2)] Eq_TrueI [OF euro(3)]
    have "(case put_word cap out ''euro'' of
             Inl e \<Rightarrow> Inl e | Inr out' \<Rightarrow> Inr (drop 3 src, out')) = Inr res"
      using run unfolding sanitize_multibyte_def Let_def e if_True if_False .
    then obtain o' where p: "put_word cap out ''euro'' = Inr o'" and r: "res = (drop 3 src, o')"
      by (auto split: sum.splits simp del: put_word.simps)
    have p': "put_word cap' out ''euro'' = Inr o'"
      using p le by (rule put_word_mono)
    show ?thesis
      unfolding sanitize_multibyte_def Let_def e if_True if_False p' r by simp
  next
    case dash
    note e = Eq_FalseI [OF dash(1)] Eq_FalseI [OF dash(2)] Eq_FalseI [OF dash(3)]
      Eq_TrueI [OF dash(4)]
    have "clause_break cap (drop 3 src) out = Inr res"
      using run unfolding sanitize_multibyte_def Let_def e if_True if_False .
    then have "clause_break cap' (drop 3 src) out = Inr res"
      using le by (rule clause_break_mono)
    then show ?thesis
      unfolding sanitize_multibyte_def Let_def e if_True if_False .
  next
    case other
    note e = Eq_FalseI [OF other(1)] Eq_FalseI [OF other(2)] Eq_FalseI [OF other(3)]
      Eq_FalseI [OF other(4)]
    have "(case put cap out (CHR '' '') of
             Inl e \<Rightarrow> Inl e | Inr out' \<Rightarrow> Inr (drop (seqlen_of c) src, out')) = Inr res"
      using run unfolding sanitize_multibyte_def Let_def e if_True if_False .
    then obtain o' where p: "put cap out (CHR '' '') = Inr o'"
      and r: "res = (drop (seqlen_of c) src, o')"
      by (auto split: sum.splits)
    have p': "put cap' out (CHR '' '') = Inr o'"
      using p le by (rule put_mono)
    show ?thesis
      unfolding sanitize_multibyte_def Let_def e if_True if_False p' r by simp
  qed
qed

lemma sanitize_step_mono:
  assumes "sanitize_step cap src out = Inr res" and "cap \<le> cap'"
  shows "sanitize_step cap' src out = Inr res"
proof (cases src)
  case Nil
  then show ?thesis using assms(1) by (simp add: sanitize_step_def)
next
  case (Cons c rest)
  show ?thesis
  proof (cases "c < CHR 0x80")
    case True
    then have "sanitize_ascii cap c rest out = Inr res"
      using assms(1) by (simp add: sanitize_step_def Cons)
    then have "sanitize_ascii cap' c rest out = Inr res"
      using assms(2) by (rule sanitize_ascii_mono)
    then show ?thesis using True by (simp add: sanitize_step_def Cons)
  next
    case False
    then have "sanitize_multibyte cap c src out = Inr res"
      using assms(1) by (simp add: sanitize_step_def Cons)
    then have "sanitize_multibyte cap' c src out = Inr res"
      using assms(2) by (rule sanitize_multibyte_mono)
    then show ?thesis using False by (simp add: sanitize_step_def Cons)
  qed
qed

lemma sanitize_loop_mono:
  "sanitize_loop cap src out = Inr res \<Longrightarrow> cap \<le> cap' \<Longrightarrow> sanitize_loop cap' src out = Inr res"
proof (induction cap src out rule: sanitize_loop.induct)
  case (1 cap src out)
  show ?case
  proof (cases "src = []")
    case True
    then show ?thesis
      using "1.prems"(1) by (simp add: sanitize_loop.simps [of _ "[]"])
  next
    case False
    then obtain src' out' where st: "sanitize_step cap src out = Inr (src', out')"
      and rec: "sanitize_loop cap src' out' = Inr res"
      using "1.prems"(1) by (auto simp: sanitize_loop.simps [of cap src out] split: sum.splits)
    have "sanitize_loop cap' src' out' = Inr res"
      using "1.IH" [OF False st refl rec "1.prems"(2)] .
    moreover have "sanitize_step cap' src out = Inr (src', out')"
      using st "1.prems"(2) by (rule sanitize_step_mono)
    ultimately show ?thesis
      using False by (simp add: sanitize_loop.simps [of cap' src out])
  qed
qed

lemma put_room: "length out < cap \<Longrightarrow> put cap out c = Inr (out @ [c])"
  by (simp add: put_def)

lemma put_word_room: "length out + length w \<le> cap \<Longrightarrow> put_word cap out w = Inr (out @ w)"
  by (induction w arbitrary: out) (simp_all add: put_room)

lemma rewind_blanks_length: "length (rewind_blanks out) \<le> length out"
  unfolding rewind_blanks_def using length_dropWhile_le [of is_blank "rev out"] by simp

lemma clause_break_room:
  assumes "length out + 2 \<le> cap"
  shows "\<exists>out'. clause_break cap rest out
           = Inr (dropWhile is_blank (dropWhile is_trailing_punct rest), out')
         \<and> length out' \<le> length out + 2"
  using assms rewind_blanks_length [of out]
  unfolding clause_break_def Let_def
  by (simp add: put_room)

lemma sanitize_ascii_room:
  assumes "length out + 2 \<le> cap"
  shows "\<exists>src' out'. sanitize_ascii cap c rest out = Inr (src', out')
         \<and> length src' \<le> length rest \<and> length out' \<le> length out + 2"
proof -
  from clause_break_room [OF assms, of rest] obtain o' where
    cb: "clause_break cap rest out
           = Inr (dropWhile is_blank (dropWhile is_trailing_punct rest), o')"
      "length o' \<le> length out + 2"
    by blast
  have "length (dropWhile is_blank (dropWhile is_trailing_punct rest)) \<le> length rest"
    using length_dropWhile_le [of is_blank "dropWhile is_trailing_punct rest"]
      length_dropWhile_le [of is_trailing_punct rest] by simp
  then show ?thesis
    using assms cb unfolding sanitize_ascii_def by (simp add: put_room)
qed

lemma currency_word_length: "currency_word c = Some w \<Longrightarrow> length w \<le> 5"
  by (auto simp: currency_word_def split: if_splits)

lemma sanitize_multibyte_room:
  assumes "src \<noteq> []" and "length out + 5 \<le> cap"
  shows "\<exists>src' out'. sanitize_multibyte cap c src out = Inr (src', out')
         \<and> length src' < length src \<and> length out' \<le> length out + 5"
proof -
  let ?short = "length src < seqlen_of c"
  let ?cur = "seqlen_of c = 2 \<and> c = CHR 0xC2 \<and> currency_word (src ! 1) \<noteq> None"
  let ?euro = "seqlen_of c = 3 \<and> c = CHR 0xE2 \<and> src ! 1 = CHR 0x82 \<and> src ! 2 = CHR 0xAC"
  let ?dash = "seqlen_of c = 3 \<and> c = CHR 0xE2 \<and> src ! 1 = CHR 0x80 \<and>
               (src ! 2 = CHR 0x94 \<or> src ! 2 = CHR 0x93)"
  have len: "0 < length src" using assms(1) by simp
  consider (short) ?short
    | (cur) "\<not> ?short" ?cur
    | (euro) "\<not> ?short" "\<not> ?cur" ?euro
    | (dash) "\<not> ?short" "\<not> ?cur" "\<not> ?euro" ?dash
    | (other) "\<not> ?short" "\<not> ?cur" "\<not> ?euro" "\<not> ?dash"
    by blast
  then show ?thesis
  proof cases
    case short
    note e = Eq_TrueI [OF short]
    have "sanitize_multibyte cap c src out = Inr (drop 1 src, out)"
      unfolding sanitize_multibyte_def Let_def e if_True ..
    then show ?thesis using len by simp
  next
    case cur
    note e = Eq_FalseI [OF cur(1)] Eq_TrueI [OF cur(2)]
    from cur obtain w where w: "currency_word (src ! 1) = Some w" by auto
    have "length w \<le> 5" using w by (rule currency_word_length)
    then have pw: "put_word cap out w = Inr (out @ w)"
      using assms(2) by (simp add: put_word_room)
    have "sanitize_multibyte cap c src out
            = (case put_word cap out (the (currency_word (src ! 1))) of
                 Inl e \<Rightarrow> Inl e | Inr out' \<Rightarrow> Inr (drop 2 src, out'))"
      unfolding sanitize_multibyte_def Let_def e if_True if_False ..
    then have "sanitize_multibyte cap c src out = Inr (drop 2 src, out @ w)"
      unfolding w option.sel pw by simp
    then show ?thesis using len \<open>length w \<le> 5\<close> by simp
  next
    case euro
    note e = Eq_FalseI [OF euro(1)] Eq_FalseI [OF euro(2)] Eq_TrueI [OF euro(3)]
    have pw: "put_word cap out ''euro'' = Inr (out @ ''euro'')"
      using assms(2) by (intro put_word_room) simp
    have "sanitize_multibyte cap c src out
            = (case put_word cap out ''euro'' of
                 Inl e \<Rightarrow> Inl e | Inr out' \<Rightarrow> Inr (drop 3 src, out'))"
      unfolding sanitize_multibyte_def Let_def e if_True if_False ..
    then have "sanitize_multibyte cap c src out = Inr (drop 3 src, out @ ''euro'')"
      by (simp add: pw del: put_word.simps)
    then show ?thesis using len by simp
  next
    case dash
    note e = Eq_FalseI [OF dash(1)] Eq_FalseI [OF dash(2)] Eq_FalseI [OF dash(3)]
      Eq_TrueI [OF dash(4)]
    from clause_break_room [of out cap "drop 3 src"] assms(2) obtain o' where
      cb: "clause_break cap (drop 3 src) out
             = Inr (dropWhile is_blank (dropWhile is_trailing_punct (drop 3 src)), o')"
        "length o' \<le> length out + 2"
      by auto
    have "length (dropWhile is_blank (dropWhile is_trailing_punct (drop 3 src)))
          \<le> length src - 3"
      using length_dropWhile_le [of is_blank "dropWhile is_trailing_punct (drop 3 src)"]
        length_dropWhile_le [of is_trailing_punct "drop 3 src"] by simp
    then have dl: "length (dropWhile is_blank (dropWhile is_trailing_punct (drop 3 src)))
          < length src"
      using len by arith
    have "sanitize_multibyte cap c src out = clause_break cap (drop 3 src) out"
      unfolding sanitize_multibyte_def Let_def e if_True if_False ..
    then have "sanitize_multibyte cap c src out
            = Inr (dropWhile is_blank (dropWhile is_trailing_punct (drop 3 src)), o')"
      by (simp add: cb(1))
    then show ?thesis using len cb(2) dl by auto
  next
    case other
    note e = Eq_FalseI [OF other(1)] Eq_FalseI [OF other(2)] Eq_FalseI [OF other(3)]
      Eq_FalseI [OF other(4)]
    have p: "put cap out (CHR '' '') = Inr (out @ '' '')"
      using assms(2) by (simp add: put_room)
    have "sanitize_multibyte cap c src out
            = (case put cap out (CHR '' '') of
                 Inl e \<Rightarrow> Inl e | Inr out' \<Rightarrow> Inr (drop (seqlen_of c) src, out'))"
      unfolding sanitize_multibyte_def Let_def e if_True if_False ..
    then have "sanitize_multibyte cap c src out = Inr (drop (seqlen_of c) src, out @ '' '')"
      by (simp add: p)
    then show ?thesis using len seqlen_of_pos [of c] by simp
  qed
qed

lemma sanitize_step_room:
  assumes "src \<noteq> []" and "length out + 5 \<le> cap"
  shows "\<exists>src' out'. sanitize_step cap src out = Inr (src', out')
         \<and> length src' < length src \<and> length out' \<le> length out + 5"
proof -
  from assms(1) obtain c rest where src: "src = c # rest" by (cases src) auto
  show ?thesis
  proof (cases "c < CHR 0x80")
    case True
    from sanitize_ascii_room [of out cap c rest] assms(2) obtain s' o' where
      "sanitize_ascii cap c rest out = Inr (s', o')" "length s' \<le> length rest"
      "length o' \<le> length out + 2"
      by auto
    then show ?thesis using True by (simp add: sanitize_step_def src)
  next
    case False
    from sanitize_multibyte_room [OF assms, of c] show ?thesis
      using False by (simp add: sanitize_step_def src)
  qed
qed

lemma sanitize_loop_room:
  "length out + 5 * length src < cap \<Longrightarrow> \<exists>res. sanitize_loop cap src out = Inr res"
proof (induction cap src out rule: sanitize_loop.induct)
  case (1 cap src out)
  show ?case
  proof (cases "src = []")
    case True
    then show ?thesis by (simp add: sanitize_loop.simps [of _ "[]"])
  next
    case False
    then have "length out + 5 \<le> cap"
      using "1.prems" by (cases src) auto
    from sanitize_step_room [OF False this] obtain src' out' where
      st: "sanitize_step cap src out = Inr (src', out')" and
      l: "length src' < length src" "length out' \<le> length out + 5"
      by blast
    have "length out' + 5 * length src' < cap"
      using l "1.prems" by arith
    from "1.IH" [OF False st refl this] obtain res where
      "sanitize_loop cap src' out' = Inr res" by blast
    then show ?thesis
      using False st by (simp add: sanitize_loop.simps [of cap src out])
  qed
qed

text \<open>
  C9. For every input there is one string \<open>out\<close>, the bytes the loop of line 563 writes
  through \<^verbatim>\<open>dst\<close> in any buffer large enough to hold them (a run in a buffer of more
  than five times the input length always ends with them); it is the string
  \<^verbatim>\<open>sanitize_for_viavoice\<close> returns whenever its own buffer holds them. Every byte of
  \<open>out\<close> lies in the declared safe set (letters, digits, space, tab, newline,
  \<^verbatim>\<open>. , ! ? $ '\<close>, which holds the comma and space of clause breaks and the letters of the
  substituted words); so no byte is 0x80 or above and none is \<^verbatim>\<open><\<close>, \<^verbatim>\<open>>\<close> or
  \<^verbatim>\<open>&\<close>.
\<close>

theorem sanitize_output_in_safe_set:
  "\<exists>out. (\<forall>cap. 5 * length (c_str text) < cap \<longrightarrow>
              sanitize_loop cap (c_str text) [] = Inr out) \<and>
         (\<forall>r. sanitize_for_viavoice malloc_ok text = Inr (Some r) \<longrightarrow> r = out) \<and>
         set out \<subseteq> declared_safe_set \<and>
         (\<forall>c \<in> set out. c < CHR 0x80 \<and> c \<noteq> CHR ''<'' \<and> c \<noteq> CHR ''>'' \<and> c \<noteq> CHR ''&'')"
proof -
  let ?src = "c_str text"
  let ?big = "5 * length ?src + 1"
  from sanitize_loop_room [of "[]" ?src ?big] obtain out where
    big: "sanitize_loop ?big ?src [] = Inr out"
    by auto
  have all: "sanitize_loop cap ?src [] = Inr out" if "5 * length ?src < cap" for cap
    using big by (rule sanitize_loop_mono) (use that in simp)
  have ret: "r = out" if "sanitize_for_viavoice malloc_ok text = Inr (Some r)" for r
  proof -
    have "sanitize_loop (length ?src * 2 + 1) ?src [] = Inr r"
      using that unfolding sanitize_for_viavoice_def Let_def
      by (auto split: if_splits sum.splits)
    then have "sanitize_loop ?big ?src [] = Inr r"
      by (rule sanitize_loop_mono) simp
    with big show ?thesis by simp
  qed
  have sub: "set out \<subseteq> declared_safe_set"
    using big by (rule sanitize_loop_safe) simp
  have safe: "c < CHR 0x80 \<and> c \<noteq> CHR ''<'' \<and> c \<noteq> CHR ''>'' \<and> c \<noteq> CHR ''&''"
    if "c \<in> set out" for c
  proof -
    from sub that have "c \<in> declared_safe_set" by (rule subsetD)
    then show ?thesis
      using declared_safe_ascii [of c] declared_safe_no_markup [of c] by simp
  qed
  show ?thesis
  proof (intro exI [of _ out] conjI allI impI ballI)
    fix cap assume "5 * length ?src < cap"
    then show "sanitize_loop cap ?src [] = Inr out" by (rule all)
  next
    fix r assume "sanitize_for_viavoice malloc_ok text = Inr (Some r)"
    then show "r = out" by (rule ret)
  next
    show "set out \<subseteq> declared_safe_set" by (rule sub)
  next
    fix c assume c: "c \<in> set out"
    from safe [OF c] show "c < CHR 0x80" by (rule conjunct1)
    from safe [OF c] show "c \<noteq> CHR ''<''" by simp
    from safe [OF c] show "c \<noteq> CHR ''>''" by simp
    from safe [OF c] show "c \<noteq> CHR ''&''" by simp
  qed
qed

text \<open>
  The pound sign alone, whose output does not fit the buffer of \<^verbatim>\<open>sanitize_for_viavoice\<close>:
  the bytes written are \<^verbatim>\<open>pound\<close>, all of them safe.
\<close>

theorem sanitize_output_in_safe_set_witness:
  "sanitize_for_viavoice True [CHR 0xC2, CHR 0xA3] = Inl BufferOverflow \<and>
   sanitize_loop 11 (c_str [CHR 0xC2, CHR 0xA3]) [] = Inr ''pound'' \<and>
   set ''pound'' \<subseteq> declared_safe_set \<and>
   list_all (\<lambda>c. c < CHR 0x80 \<and> c \<noteq> CHR ''<'' \<and> c \<noteq> CHR ''>'' \<and> c \<noteq> CHR ''&'') ''pound''"
proof -
  have o: "sanitize_for_viavoice True [CHR 0xC2, CHR 0xA3] = Inl BufferOverflow"
    by code_simp
  have l: "sanitize_loop 11 (c_str [CHR 0xC2, CHR 0xA3]) [] = Inr ''pound''"
    by code_simp
  have n: "5 * length (c_str [CHR 0xC2, CHR 0xA3]) < 11"
    by (simp add: c_str_def NUL_def)
  from sanitize_output_in_safe_set [of "[CHR 0xC2, CHR 0xA3]" True] obtain out where
    H: "(\<forall>cap. 5 * length (c_str [CHR 0xC2, CHR 0xA3]) < cap \<longrightarrow>
          sanitize_loop cap (c_str [CHR 0xC2, CHR 0xA3]) [] = Inr out) \<and>
        (\<forall>r. sanitize_for_viavoice True [CHR 0xC2, CHR 0xA3] = Inr (Some r) \<longrightarrow> r = out) \<and>
        set out \<subseteq> declared_safe_set \<and>
        (\<forall>c \<in> set out. c < CHR 0x80 \<and> c \<noteq> CHR ''<'' \<and> c \<noteq> CHR ''>'' \<and> c \<noteq> CHR ''&'')"
    ..
  note a = H [THEN conjunct1, rule_format, OF n]
  note s = H [THEN conjunct2, THEN conjunct2, THEN conjunct1]
  note b = H [THEN conjunct2, THEN conjunct2, THEN conjunct2]
  from a l have out: "out = ''pound''" by simp
  have "list_all (\<lambda>c. c < CHR 0x80 \<and> c \<noteq> CHR ''<'' \<and> c \<noteq> CHR ''>'' \<and> c \<noteq> CHR ''&'') out"
    unfolding list_all_iff by (rule b)
  with o l s show ?thesis unfolding out by (intro conjI)
qed

text \<open>
  C1. The two bytes 0xC2 0xA3 of the pound sign are given a buffer of
  \<open>2 * 2 + 1 = 5\<close> bytes; the word \<^verbatim>\<open>pound\<close> fills it, and the terminating NUL of
  line 652 is written past its end. In a buffer of 6 bytes the output is the five bytes
  \<^verbatim>\<open>pound\<close>, more than twice the input length.
\<close>

theorem sanitize_pound_overflows:
  "sanitize_for_viavoice True [CHR 0xC2, CHR 0xA3] = Inl BufferOverflow \<and>
   sanitize_loop 6 [CHR 0xC2, CHR 0xA3] [] = Inr ''pound''"
  by code_simp

subsection \<open>The markup stripper\<close>

text \<open>
  The pointer arithmetic of lines 528--541 computes \<open>trimmed\<close>; the tag loop keeps
  everything but \<^verbatim>\<open>>\<close> when no tag opens; the entity decoder changes nothing where no
  \<^verbatim>\<open>&\<close> occurs, and adds no NUL.
\<close>

lemma strip_tags_no_lt:
  "CHR ''<'' \<notin> set xs \<Longrightarrow> strip_tags False xs = filter (\<lambda>c. c \<noteq> CHR ''>'') xs"
  by (induction xs) auto

lemma decode_no_amp: "CHR ''&'' \<notin> set xs \<Longrightarrow> decode_xml_entities xs = xs"
proof (induction xs)
  case Nil
  show ?case by (simp add: decode_xml_entities.simps [of "[]"])
next
  case (Cons a xs)
  then show ?case by (auto simp: decode_xml_entities.simps [of "a # xs"])
qed

lemma match_entity_char:
  "match_entity entities src = Some (ch, len)
     \<Longrightarrow> ch \<in> {CHR ''&'', CHR ''<'', CHR ''>'', CHR 0x27, CHR 0x22}"
  by (auto simp: entities_def split: if_splits)

lemma decode_set:
  "set (decode_xml_entities src)
     \<subseteq> set src \<union> {CHR ''&'', CHR ''<'', CHR ''>'', CHR 0x27, CHR 0x22}"
proof (induction src rule: decode_xml_entities.induct)
  case (1 src)
  show ?case
  proof (cases src)
    case Nil
    then show ?thesis by (simp add: decode_xml_entities.simps [of "[]"])
  next
    case (Cons c rest)
    show ?thesis
    proof (cases "c = CHR ''&''")
      case False
      then have "decode_xml_entities src = c # decode_xml_entities rest"
        unfolding Cons by (subst decode_xml_entities.simps) simp
      then show ?thesis using "1.IH"(3) [OF Cons False] Cons by auto
    next
      case True
      show ?thesis
      proof (cases "match_entity entities src")
        case None
        then have "decode_xml_entities src = c # decode_xml_entities rest"
          using True unfolding Cons by (subst decode_xml_entities.simps) simp
        then show ?thesis using "1.IH"(1) [OF Cons True None] Cons by auto
      next
        case (Some p)
        obtain ch len where p: "p = (ch, len)" by (cases p)
        have eq: "decode_xml_entities src = ch # decode_xml_entities (drop len src)"
          using True Some p unfolding Cons
          by (subst decode_xml_entities.simps) simp
        have "set (drop len src) \<subseteq> set src" by (rule set_drop_subset)
        moreover note "1.IH"(2) [OF Cons True Some p [symmetric]]
        moreover note match_entity_char [OF Some [unfolded p]]
        ultimately show ?thesis unfolding eq by auto
      qed
    qed
  qed
qed

lemma trim_end_take:
  assumes "start \<le> e" "e < length r" "\<not> is_space (r ! start)"
  shows "take (Suc (trim_end r start e)) r = rev (dropWhile is_space (rev (take (Suc e) r)))"
  using assms
proof (induction r start e rule: trim_end.induct)
  case (1 r start e)
  have split: "take (Suc e) r = take e r @ [r ! e]"
    using "1.prems"(2) by (rule take_Suc_conv_app_nth)
  show ?case
  proof (cases "start < e \<and> is_space (r ! e)")
    case True
    then have te: "trim_end r start e = trim_end r start (e - 1)"
      by (subst trim_end.simps) auto
    have "start \<le> e - 1" and "e - 1 < length r"
      using True "1.prems"(2) by auto
    then have "take (Suc (trim_end r start (e - 1))) r
          = rev (dropWhile is_space (rev (take (Suc (e - 1)) r)))"
      using "1.prems"(3) by (rule "1.IH" [OF True])
    moreover have "Suc (e - 1) = e" using True by simp
    ultimately show ?thesis using True by (simp add: te split)
  next
    case False
    then have te: "trim_end r start e = e"
      by (subst trim_end.simps) auto
    have "\<not> is_space (r ! e)"
      using False "1.prems" by (cases "start = e") auto
    then show ?thesis by (simp add: te split)
  qed
qed

lemma trim_whitespace_trimmed: "trim_whitespace r = trimmed r"
proof (cases "r = []")
  case True
  then show ?thesis by (simp add: trim_whitespace_def trimmed_def)
next
  case False
  define s where "s = length (takeWhile is_space r)"
  define e where "e = trim_end r s (length r - 1)"
  have tw: "trim_whitespace r = (if s \<noteq> 0 then drop s (take (e + 1) r) else take (e + 1) r)"
    using False by (simp add: trim_whitespace_def Let_def s_def e_def)
  have bodyeq: "dropWhile is_space r = drop s r"
    unfolding s_def by (rule dropWhile_eq_drop)
  show ?thesis
  proof (cases "s = length r")
    case True
    then have "e = length r - 1"
      unfolding e_def by (subst trim_end.simps) auto
    then have "trim_whitespace r = []"
      using tw True False by simp
    moreover have dw: "dropWhile is_space r = []"
      unfolding bodyeq True by simp
    have "trimmed r = []"
      unfolding trimmed_def dw by simp
    ultimately show ?thesis by simp
  next
    case ne: False
    have lt: "s < length r"
      using ne length_takeWhile_le [of is_space r] unfolding s_def by simp
    have ns: "\<not> is_space (r ! s)"
      using lt unfolding s_def by (rule nth_length_takeWhile)
    have "take (Suc e) r = rev (dropWhile is_space (rev (take (Suc (length r - 1)) r)))"
      unfolding e_def using lt ns by (intro trim_end_take) auto
    then have X: "take (e + 1) r = rev (dropWhile is_space (rev r))"
      using False by simp
    have r: "r = take s r @ drop s r" by simp
    have mem: "r ! s \<in> set (rev (drop s r))"
      using Cons_nth_drop_Suc [OF lt] by (metis list.set_intros(1) set_rev)
    have "dropWhile is_space (rev r) = dropWhile is_space (rev (drop s r)) @ rev (take s r)"
      using dropWhile_append1 [of "r ! s" "rev (drop s r)" is_space "rev (take s r)", OF mem ns]
      by (simp flip: rev_append)
    then have "take (e + 1) r = take s r @ rev (dropWhile is_space (rev (drop s r)))"
      using X by simp
    then have "drop s (take (e + 1) r) = rev (dropWhile is_space (rev (drop s r)))"
      using lt by simp
    then show ?thesis
      unfolding tw trimmed_def bodyeq by (cases "s = 0") simp_all
  qed
qed

lemma trimmed_idem: "trimmed (trimmed z) = trimmed z"
proof -
  define w where "w = dropWhile is_space z"
  define t where "t = rev (dropWhile is_space (rev w))"
  have tz: "trimmed z = t" by (simp add: trimmed_def w_def t_def)
  have w: "w = t @ rev (takeWhile is_space (rev w))"
    unfolding t_def by (metis rev_append rev_rev_ident takeWhile_dropWhile_id)
  have "dropWhile is_space t = t"
  proof (cases "t = []")
    case True
    then show ?thesis by simp
  next
    case False
    then have "hd t = hd w" using w by (metis hd_append2)
    moreover have "w \<noteq> []" using False w by auto
    then have "\<not> is_space (hd w)" unfolding w_def by (rule hd_dropWhile)
    ultimately show ?thesis using False by (cases t) auto
  qed
  moreover have "rev (dropWhile is_space (rev t)) = t"
    unfolding t_def by simp
  ultimately show ?thesis unfolding tz by (simp add: trimmed_def)
qed

lemma trimmed_subset: "set (trimmed z) \<subseteq> set z"
proof -
  have "set (trimmed z) \<subseteq> set (rev (dropWhile is_space z))"
    unfolding trimmed_def using set_dropWhileD [of _ is_space "rev (dropWhile is_space z)"]
    by auto
  also have "\<dots> \<subseteq> set z"
    using set_dropWhileD [of _ is_space z] by auto
  finally show ?thesis .
qed

lemma strip_ssml_eq: "strip_ssml True x = Some (trimmed (decode_xml_entities (c_str (strip_tags False x))))"
  by (simp add: strip_ssml_def trim_whitespace_trimmed)

lemma strip_ssml_no_NUL: "strip_ssml True x = Some y \<Longrightarrow> NUL \<notin> set y"
proof -
  assume "strip_ssml True x = Some y"
  then have y: "y = trimmed (decode_xml_entities (c_str (strip_tags False x)))"
    by (simp add: strip_ssml_eq)
  have "NUL \<notin> set (c_str (strip_tags False x))"
    unfolding c_str_def using set_takeWhileD by fastforce
  moreover have "NUL \<notin> {CHR ''&'', CHR ''<'', CHR ''>'', CHR 0x27, CHR 0x22}"
    by (simp add: NUL_def)
  ultimately have "NUL \<notin> set (decode_xml_entities (c_str (strip_tags False x)))"
    using decode_set [of "c_str (strip_tags False x)"] by blast
  then show ?thesis unfolding y using trimmed_subset by blast
qed

text \<open>
  C4. For every input with no \<^verbatim>\<open><\<close> and no \<^verbatim>\<open>&\<close> byte, \<^verbatim>\<open>strip_ssml\<close> returns the
  input with every \<^verbatim>\<open>>\<close> byte removed, cut at its first NUL byte if it has one, and
  with leading and trailing space, tab and newline trimmed; every other byte is kept in
  place.
\<close>

theorem strip_ssml_without_markup:
  assumes "CHR ''<'' \<notin> set x" and "CHR ''&'' \<notin> set x"
  shows "strip_ssml True x = Some (trimmed (c_str (filter (\<lambda>c. c \<noteq> CHR ''>'') x)))"
proof -
  have "CHR ''&'' \<notin> set (c_str (filter (\<lambda>c. c \<noteq> CHR ''>'') x))"
    unfolding c_str_def using assms(2) set_takeWhileD by fastforce
  then show ?thesis
    by (simp add: strip_ssml_eq strip_tags_no_lt [OF assms(1)] decode_no_amp)
qed

theorem strip_ssml_without_markup_witness:
  "CHR ''<'' \<notin> set '' a > b '' \<and> CHR ''&'' \<notin> set '' a > b '' \<and>
   strip_ssml True '' a > b '' = Some ''a  b''"
proof -
  have h1: "CHR ''<'' \<notin> set '' a > b ''" by simp
  have h2: "CHR ''&'' \<notin> set '' a > b ''" by simp
  have "trimmed (c_str (filter (\<lambda>c. c \<noteq> CHR ''>'') '' a > b '')) = ''a  b''"
    by (simp add: trimmed_def c_str_def NUL_def is_space_def)
  with strip_ssml_without_markup [OF h1 h2] h1 h2 show ?thesis by simp
qed

text \<open>A \<^verbatim>\<open>>\<close> outside any tag is dropped, so the result is not the trimmed input.\<close>

theorem strip_ssml_drops_gt_counterexample:
  "strip_ssml True ''a>b'' = Some ''ab'' \<and> trimmed ''a>b'' = ''a>b''"
  by (rule conjI) (code_simp, simp add: trimmed_def is_space_def)

text \<open>
  No stage of \<^verbatim>\<open>strip_ssml\<close> lengthens its input; the tag loop keeps the length only
  where there is no \<^verbatim>\<open><\<close> and no \<^verbatim>\<open>>\<close>, the entity decoder only where it changes
  nothing.
\<close>

lemma strip_tags_length: "length (strip_tags b z) \<le> length z"
  by (induction z arbitrary: b) (auto intro: le_SucI)

lemma strip_tags_length_eq:
  "length (strip_tags b z) = length z \<Longrightarrow> CHR ''<'' \<notin> set z \<and> CHR ''>'' \<notin> set z"
proof (induction z arbitrary: b)
  case Nil
  then show ?case by simp
next
  case (Cons c cs)
  have le: "\<And>b'. length (strip_tags b' cs) \<le> length cs" by (rule strip_tags_length)
  show ?case
  proof (cases "c = CHR ''<'' \<or> c = CHR ''>'' \<or> b")
    case True
    then have "length (strip_tags b (c # cs)) \<le> length cs"
      using le by auto
    then show ?thesis using Cons.prems by simp
  next
    case False
    then have "length (strip_tags b cs) = length cs"
      using Cons.prems by simp
    from Cons.IH [OF this] False show ?thesis by auto
  qed
qed

lemma match_entity_len:
  "match_entity entities src = Some (ch, len) \<Longrightarrow> 4 \<le> len \<and> len \<le> length src"
  by (auto simp: entities_def split: if_splits dest!: arg_cong [where f = length])

lemma decode_length: "length (decode_xml_entities src) \<le> length src"
proof (induction src rule: decode_xml_entities.induct)
  case (1 src)
  show ?case
  proof (cases src)
    case Nil
    then show ?thesis by (simp add: decode_xml_entities.simps [of "[]"])
  next
    case (Cons c rest)
    show ?thesis
    proof (cases "c = CHR ''&''")
      case False
      then have "decode_xml_entities src = c # decode_xml_entities rest"
        unfolding Cons by (subst decode_xml_entities.simps) simp
      then show ?thesis using "1.IH"(3) [OF Cons False] Cons by simp
    next
      case True
      show ?thesis
      proof (cases "match_entity entities src")
        case None
        then have "decode_xml_entities src = c # decode_xml_entities rest"
          using True unfolding Cons by (subst decode_xml_entities.simps) simp
        then show ?thesis using "1.IH"(1) [OF Cons True None] Cons by simp
      next
        case (Some p)
        obtain ch len where p: "p = (ch, len)" by (cases p)
        have eq: "decode_xml_entities src = ch # decode_xml_entities (drop len src)"
          using True Some p unfolding Cons
          by (subst decode_xml_entities.simps) simp
        have "length (decode_xml_entities (drop len src)) \<le> length (drop len src)"
          by (rule "1.IH"(2) [OF Cons True Some p [symmetric]])
        moreover have "4 \<le> len \<and> len \<le> length src"
          using match_entity_len Some p by simp
        ultimately show ?thesis unfolding eq by simp arith
      qed
    qed
  qed
qed

lemma decode_length_eq:
  "length (decode_xml_entities src) = length src \<Longrightarrow> decode_xml_entities src = src"
proof (induction src rule: decode_xml_entities.induct)
  case (1 src)
  show ?case
  proof (cases src)
    case Nil
    then show ?thesis by (simp add: decode_xml_entities.simps [of "[]"])
  next
    case (Cons c rest)
    show ?thesis
    proof (cases "c = CHR ''&''")
      case False
      then have eq: "decode_xml_entities src = c # decode_xml_entities rest"
        unfolding Cons by (subst decode_xml_entities.simps) simp
      then have "length (decode_xml_entities rest) = length rest"
        using "1.prems" Cons by simp
      from "1.IH"(3) [OF Cons False this] show ?thesis unfolding eq by (simp add: Cons)
    next
      case True
      show ?thesis
      proof (cases "match_entity entities src")
        case None
        then have eq: "decode_xml_entities src = c # decode_xml_entities rest"
          using True unfolding Cons by (subst decode_xml_entities.simps) simp
        then have "length (decode_xml_entities rest) = length rest"
          using "1.prems" Cons by simp
        from "1.IH"(1) [OF Cons True None this] show ?thesis unfolding eq by (simp add: Cons)
      next
        case (Some p)
        obtain ch len where p: "p = (ch, len)" by (cases p)
        have eq: "decode_xml_entities src = ch # decode_xml_entities (drop len src)"
          using True Some p unfolding Cons
          by (subst decode_xml_entities.simps) simp
        have "length (decode_xml_entities (drop len src)) \<le> length (drop len src)"
          by (rule decode_length)
        moreover have "4 \<le> len \<and> len \<le> length src"
          using match_entity_len Some p by simp
        ultimately have "length (decode_xml_entities src) < length src"
          unfolding eq by simp arith
        then show ?thesis using "1.prems" by simp
      qed
    qed
  qed
qed

lemma trimmed_length: "length (trimmed z) \<le> length z"
proof -
  have "length (trimmed z) \<le> length (dropWhile is_space z)"
    unfolding trimmed_def using length_dropWhile_le [of is_space "rev (dropWhile is_space z)"]
    by simp
  also have "\<dots> \<le> length z" by (rule length_dropWhile_le)
  finally show ?thesis .
qed

lemma c_str_length: "length (c_str z) \<le> length z"
  unfolding c_str_def by (rule length_takeWhile_le)

text \<open>
  C5. Stripping a result of \<^verbatim>\<open>strip_ssml\<close> again returns it unchanged exactly when it
  holds no \<^verbatim>\<open><\<close>, no \<^verbatim>\<open>>\<close> and no entity the decoder replaces: if \<open>strip x = y\<close>,
  then \<open>strip y = y\<close> if and only if \<open>y\<close> has neither \<^verbatim>\<open><\<close> nor \<^verbatim>\<open>>\<close> and
  \<^verbatim>\<open>decode_xml_entities\<close> leaves \<open>y\<close> as it is. A lone \<^verbatim>\<open>&\<close> does no harm.
\<close>

theorem strip_ssml_fixed_point:
  assumes "strip_ssml True x = Some y"
  shows "strip_ssml True y = Some y \<longleftrightarrow>
         CHR ''<'' \<notin> set y \<and> CHR ''>'' \<notin> set y \<and> decode_xml_entities y = y"
proof
  assume fp: "strip_ssml True y = Some y"
  let ?s = "strip_tags False y"
  have eq: "trimmed (decode_xml_entities (c_str ?s)) = y"
    using fp by (simp add: strip_ssml_eq)
  have "length y \<le> length (decode_xml_entities (c_str ?s))"
    using trimmed_length [of "decode_xml_entities (c_str ?s)"] unfolding eq .
  also have "\<dots> \<le> length (c_str ?s)" by (rule decode_length)
  also have "\<dots> \<le> length ?s" by (rule c_str_length)
  finally have "length y \<le> length ?s" .
  then have "length ?s = length y"
    using strip_tags_length [of False y] by simp
  then have tags: "CHR ''<'' \<notin> set y \<and> CHR ''>'' \<notin> set y"
    by (rule strip_tags_length_eq)
  then have "filter (\<lambda>c. c \<noteq> CHR ''>'') y = y"
    by (auto simp: filter_id_conv)
  then have st: "?s = y"
    using tags by (simp add: strip_tags_no_lt)
  have cs: "c_str y = y"
    unfolding c_str_def using strip_ssml_no_NUL [OF assms] by auto
  have eq': "trimmed (decode_xml_entities y) = y"
    using eq unfolding st cs .
  have "length (decode_xml_entities y) \<le> length y" by (rule decode_length)
  moreover have "length y \<le> length (decode_xml_entities y)"
    using trimmed_length [of "decode_xml_entities y"] unfolding eq' .
  ultimately have "decode_xml_entities y = y"
    by (intro decode_length_eq) simp
  with tags show "CHR ''<'' \<notin> set y \<and> CHR ''>'' \<notin> set y \<and> decode_xml_entities y = y"
    by simp
next
  assume h: "CHR ''<'' \<notin> set y \<and> CHR ''>'' \<notin> set y \<and> decode_xml_entities y = y"
  have y: "y = trimmed (decode_xml_entities (c_str (strip_tags False x)))"
    using assms by (simp add: strip_ssml_eq)
  have "filter (\<lambda>c. c \<noteq> CHR ''>'') y = y"
    using h by (auto simp: filter_id_conv)
  then have st: "strip_tags False y = y"
    using h by (simp add: strip_tags_no_lt)
  have cs: "c_str y = y"
    unfolding c_str_def using strip_ssml_no_NUL [OF assms] by auto
  have "trimmed y = y"
    unfolding y by (rule trimmed_idem)
  then show "strip_ssml True y = Some y"
    using h by (simp add: strip_ssml_eq st cs)
qed

theorem strip_ssml_fixed_point_witness:
  "strip_ssml True ''a &amp; b'' = Some ''a & b'' \<and>
   CHR ''<'' \<notin> set ''a & b'' \<and> CHR ''>'' \<notin> set ''a & b'' \<and>
   decode_xml_entities ''a & b'' = ''a & b'' \<and>
   strip_ssml True ''a & b'' = Some ''a & b''"
proof -
  have h1: "strip_ssml True ''a &amp; b'' = Some ''a & b''" by code_simp
  have h2: "CHR ''<'' \<notin> set ''a & b'' \<and> CHR ''>'' \<notin> set ''a & b''" by simp
  have h3: "decode_xml_entities ''a & b'' = ''a & b''" by code_simp
  from strip_ssml_fixed_point [OF h1] h2 h3 have "strip_ssml True ''a & b'' = Some ''a & b''"
    by blast
  with h1 h2 h3 show ?thesis by blast
qed

text \<open>
  Entity decoding runs after tag stripping, so a decoded \<^verbatim>\<open><b>\<close> is a tag to the
  second pass.
\<close>

theorem strip_ssml_not_idempotent_counterexample:
  "strip_ssml True ''&lt;b&gt;'' = Some ''<b>'' \<and> strip_ssml True ''<b>'' \<noteq> Some ''<b>''"
  by (rule conjI) code_simp+

subsection \<open>The orchestrator\<close>

lemma strip_lt: "strip_ssml True ''&lt;'' = Some ''<''"
  by code_simp

text \<open>
  C6. For a message of kind CHAR or KEY, with an engine handle and a non-empty result of
  \<^verbatim>\<open>strip_ssml\<close>, the one text handed to \<^verbatim>\<open>eciAddText\<close> is the result of
  \<^verbatim>\<open>strip_ssml\<close> on the utterance (tags stripped, entities decoded, trimmed);
  \<^verbatim>\<open>sanitize_for_viavoice\<close> is not applied.
\<close>

theorem speak_char_key_submits_stripped_text:
  assumes "msgtype = SPD_MSGTYPE_CHAR \<or> msgtype = SPD_MSGTYPE_KEY"
    and "eciHandle s"
    and "strip_ssml (strip_malloc_ok env) data = Some text"
    and "text \<noteq> []"
  shows "submitted_texts (fst (module_speak_sync env s data msgtype)) = [text]"
  using assms unfolding module_speak_sync_def Let_def
  by (auto split: sum.splits)

theorem speak_char_key_submits_stripped_text_witness:
  "(SPD_MSGTYPE_KEY = SPD_MSGTYPE_CHAR \<or> SPD_MSGTYPE_KEY = SPD_MSGTYPE_KEY) \<and>
   eciHandle initial_state \<and>
   strip_ssml (strip_malloc_ok (cooperative [])) ''  <b>&amp;</b> '' = Some ''&'' \<and>
   ''&'' \<noteq> [] \<and>
   submitted_texts (fst (module_speak_sync (cooperative []) initial_state
     ''  <b>&amp;</b> '' SPD_MSGTYPE_KEY)) = [''&'']"
proof -
  have h1: "SPD_MSGTYPE_KEY = SPD_MSGTYPE_CHAR \<or> SPD_MSGTYPE_KEY = SPD_MSGTYPE_KEY" by simp
  have h2: "eciHandle initial_state" by (simp add: initial_state_def)
  have h3: "strip_ssml (strip_malloc_ok (cooperative [])) ''  <b>&amp;</b> '' = Some ''&''"
    unfolding cooperative_def by code_simp
  have h4: "''&'' \<noteq> []" by simp
  from speak_char_key_submits_stripped_text [OF h1 h2 h3 h4] h1 h2 h3 h4
  show ?thesis by blast
qed

text \<open>The key name \<^verbatim>\<open>&lt;\<close> reaches the engine as \<^verbatim>\<open><\<close>, not as its raw bytes.\<close>

theorem speak_key_counterexample:
  "submitted_texts (fst (module_speak_sync (cooperative []) initial_state
     ''&lt;'' SPD_MSGTYPE_KEY)) = [''<''] \<and> ''<'' \<noteq> ''&lt;''"
  unfolding module_speak_sync_def Let_def
  by (simp add: strip_lt cooperative_def initial_state_def)

text \<open>
  When the \<^verbatim>\<open>realloc\<close> of line 93 fails, line 93 has already stored its NULL result in
  \<^verbatim>\<open>audio_data.samples\<close>; the counters are as before.
\<close>

lemma collect_realloc_failure:
  assumes "int32 (num_samples (audio_data s) + param) > allocated (audio_data s)"
  shows "eci_callback_collect s eciWaveformBuffer param False
         = Inr (eciDataNotProcessed, s\<lparr>audio_data := (audio_data s)\<lparr>samples := None\<rparr>\<rparr>)"
  using assms by (simp add: eci_callback_collect_def Let_def realloc_samples_def)

text \<open>
  C7. After \<^verbatim>\<open>module_init\<close>, the engine delivers fragments of 1 and of 20000 samples,
  which fill the 20001 samples allocated. Delivered alone, they reach the host as a track
  of 20001 samples. When a third fragment of 1 sample follows and its \<^verbatim>\<open>realloc\<close>
  fails, the host is handed a track that still announces 20001 samples and whose sample
  pointer is NULL: the samples collected before the failure are not delivered.
\<close>

theorem realloc_failure_loses_collected_audio:
  "delivered_tracks (fst (module_speak_sync
      (cooperative [Fragment eciWaveformBuffer 1 [7] True,
                    Fragment eciWaveformBuffer 20000 (replicate 20000 9) True])
      initial_state ''hi'' SPD_MSGTYPE_TEXT))
   = [\<lparr>bits = 16, num_channels = 1, sample_rate = 22050,
       track_num_samples = 20001, track_samples = Some (7 # replicate 20000 9)\<rparr>] \<and>
   delivered_tracks (fst (module_speak_sync
      (cooperative [Fragment eciWaveformBuffer 1 [7] True,
                    Fragment eciWaveformBuffer 20000 (replicate 20000 9) True,
                    Fragment eciWaveformBuffer 1 [5] False])
      initial_state ''hi'' SPD_MSGTYPE_TEXT))
   = [\<lparr>bits = 16, num_channels = 1, sample_rate = 22050,
       track_num_samples = 20001, track_samples = None\<rparr>]"
proof -
  have t: "strip_ssml True ''hi'' = Some ''hi''" by code_simp
  have u: "sanitize_for_viavoice True ''hi'' = Inr (Some ''hi'')" by code_simp
  show ?thesis
    unfolding module_speak_sync_def Let_def
    by (simp add: t u cooperative_def initial_state_def eci_callback_def
        eci_callback_collect_def Let_def realloc_samples_def memcpy_samples_def
        module_stop_def make_track_def int32_def samples_in_bytes_def)
qed

subsection \<open>The callback interleaved with a stop request\<close>

text \<open>
  A callback invocation that no stop request interrupts behaves as \<^verbatim>\<open>eci_callback\<close>.
\<close>

lemma sched_uninterrupted_callback:
  assumes "in_flight st = None"
  shows "sched_run st [CallbackEnter msg param frag realloc_ok, CallbackResume]
         = (case eci_callback ((mstate st)\<lparr>audio_buffer := frag\<rparr>) msg param realloc_ok of
              Inl f \<Rightarrow> Inl f
            | Inr (r, s') \<Rightarrow> Inr (st\<lparr>mstate := s', in_flight := None\<rparr>))"
  using assms by (auto simp: eci_callback_def Let_def split: sum.splits)

lemma sched_step_stopped:
  assumes "stop_requested (mstate st)" and "in_flight st = None"
  shows "\<exists>st'. sched_step st ev = Inr st' \<and> audio_data (mstate st') = audio_data (mstate st)
           \<and> stop_requested (mstate st') \<and> in_flight st' = None"
  using assms by (cases ev) (simp_all add: Let_def module_stop_def)

text \<open>
  C2. Under sequentially consistent interleaving: once \<^verbatim>\<open>stop_requested\<close> is set and
  no callback invocation has already passed the test of line 82, no schedule of callback
  invocations and stop requests appends a fragment: every run ends without a fault, with
  \<^verbatim>\<open>audio_data\<close> as it was and the flag still set.
\<close>

theorem stop_before_entry_blocks_append:
  assumes "stop_requested (mstate st)" and "in_flight st = None"
  shows "\<exists>st'. sched_run st evs = Inr st' \<and> audio_data (mstate st') = audio_data (mstate st)
           \<and> stop_requested (mstate st') \<and> in_flight st' = None"
  using assms
proof (induction evs arbitrary: st)
  case Nil
  then show ?case by simp
next
  case (Cons ev evs)
  from sched_step_stopped [OF Cons.prems, of ev] obtain st1 where
    s1: "sched_step st ev = Inr st1" "audio_data (mstate st1) = audio_data (mstate st)"
      "stop_requested (mstate st1)" "in_flight st1 = None"
    by blast
  from Cons.IH [OF s1(3,4)] obtain st' where
    "sched_run st1 evs = Inr st'" "audio_data (mstate st') = audio_data (mstate st1)"
      "stop_requested (mstate st')" "in_flight st' = None"
    by blast
  then show ?case using s1 by simp
qed

theorem stop_before_entry_blocks_append_witness:
  "stop_requested (mstate (idle (module_stop initial_state))) \<and>
   in_flight (idle (module_stop initial_state)) = None \<and>
   (\<exists>st'. sched_run (idle (module_stop initial_state))
            [CallbackEnter eciWaveformBuffer 2 [1, 2] True, CallbackResume, Stop,
             CallbackEnter eciWaveformBuffer 1 [3] True, CallbackResume] = Inr st' \<and>
          audio_data (mstate st') = audio_data (mstate (idle (module_stop initial_state))) \<and>
          stop_requested (mstate st') \<and> in_flight st' = None)"
proof -
  have h1: "stop_requested (mstate (idle (module_stop initial_state)))"
    by (simp add: idle_def module_stop_def)
  have h2: "in_flight (idle (module_stop initial_state)) = None"
    by (simp add: idle_def)
  from stop_before_entry_blocks_append [OF h1 h2] h1 h2 show ?thesis by blast
qed

text \<open>
  A stop request that falls between the test of line 82 and the locked region does not
  stop the invocation under way: the flag is set, and the fragment is appended after it.
\<close>

theorem stop_mid_callback_counterexample:
  "stop_requested (mstate (projr (sched_run (idle initial_state)
      [CallbackEnter eciWaveformBuffer 2 [1, 2] True, Stop]))) \<and>
   num_samples (audio_data (mstate (projr (sched_run (idle initial_state)
      [CallbackEnter eciWaveformBuffer 2 [1, 2] True, Stop])))) = 0 \<and>
   num_samples (audio_data (mstate (projr (sched_run (idle initial_state)
      [CallbackEnter eciWaveformBuffer 2 [1, 2] True, Stop, CallbackResume])))) = 2"
  by (simp add: idle_def initial_state_def Let_def module_stop_def eci_callback_collect_def
      realloc_samples_def memcpy_samples_def int32_def samples_in_bytes_def)

end
